theory Spec2Isabelle
  imports Main "HOL-Library.AList" "HOL-Library.Sublist"
begin

section \<open>Strings\<close>

text \<open>
  A JavaScript string is a sequence of UTF-16 code units; \<open>length\<close>, \<open>substring\<close>,
  \<open>startsWith\<close>, \<open>lastIndexOf\<close> and the regular expressions of the sources (none has
  the \<open>u\<close> flag) all count and compare code units.  A code unit is modelled by its
  number, a string by the list of its code units.  \<open>u\<close> turns a literal into such a list.
\<close>

type_synonym jchar = nat
type_synonym jstring = "jchar list"

definition u :: "string \<Rightarrow> jstring" where
  "u s = map of_char s"

text \<open>
  The white space of \<open>String.prototype.trim\<close>, \<open>trimStart\<close> and of the class \<open>\s\<close>:
  the WhiteSpace and LineTerminator code points of ECMAScript.
\<close>

definition is_space :: "jchar \<Rightarrow> bool" where
  "is_space c \<longleftrightarrow>
     c = 9 \<or> c = 10 \<or> c = 11 \<or> c = 12 \<or> c = 13 \<or> c = 32 \<or> c = 160 \<or> c = 5760 \<or>
     (8192 \<le> c \<and> c \<le> 8202) \<or> c = 8232 \<or> c = 8233 \<or> c = 8239 \<or> c = 8287 \<or>
     c = 12288 \<or> c = 65279"

definition trimStart :: "jstring \<Rightarrow> jstring" where
  "trimStart s = dropWhile is_space s"

definition trimEnd :: "jstring \<Rightarrow> jstring" where
  "trimEnd s = rev (dropWhile is_space (rev s))"

definition trim :: "jstring \<Rightarrow> jstring" where
  "trim s = trimEnd (trimStart s)"

text \<open>\<open>s.startsWith(p)\<close> is \<^term>\<open>prefix p s\<close>; \<open>s.substring(n)\<close> with \<open>0 \<le> n\<close> is
  \<^term>\<open>drop n s\<close>, and \<open>s.substring(0, n)\<close> is \<^term>\<open>take n s\<close> (both clamp at the length).\<close>


section \<open>History: undo and redo (js/storage.js)\<close>

text \<open>
  \<open>undoStack\<close> and \<open>redoStack\<close> are module-level arrays of snapshots.  \<open>push\<close> appends at the
  end, \<open>pop\<close> removes the last element, \<open>shift\<close> the first.  The state is passed
  explicitly; \<open>null\<close> is \<open>None\<close>.
\<close>

record history =
  undoStack :: "jstring list"
  redoStack :: "jstring list"

definition MAX_HISTORY_SIZE :: nat where
  "MAX_HISTORY_SIZE = 50"

definition pushHistory :: "jstring \<Rightarrow> history \<Rightarrow> history" where
  "pushHistory content h =
     (if length (undoStack h) > 0 \<and> last (undoStack h) = content then h
      else
        let pushed = undoStack h @ [content];
            limited = (if length pushed > MAX_HISTORY_SIZE then tl pushed else pushed)
        in \<lparr>undoStack = limited, redoStack = []\<rparr>)"

definition undo :: "jstring \<Rightarrow> history \<Rightarrow> jstring option \<times> history" where
  "undo currentContent h =
     (if length (undoStack h) = 0 then (None, h)
      else (Some (last (undoStack h)),
            \<lparr>undoStack = butlast (undoStack h), redoStack = redoStack h @ [currentContent]\<rparr>))"

definition redo :: "jstring \<Rightarrow> history \<Rightarrow> jstring option \<times> history" where
  "redo currentContent h =
     (if length (redoStack h) = 0 then (None, h)
      else (Some (last (redoStack h)),
            \<lparr>undoStack = undoStack h @ [currentContent], redoStack = butlast (redoStack h)\<rparr>))"


section \<open>Settings and formatting preferences (js/storage.js)\<close>

text \<open>
  JSON values.  A number is kept as the decimal \<open>m \<times> 10\<^sup>e\<close> it is written as.  An object
  is the list of its own properties; \<^const>\<open>map_of\<close> looks a key up.
\<close>

datatype json =
    JNull
  | JBool bool
  | JNum int int
  | JStr jstring
  | JArr "json list"
  | JObj "(jstring \<times> json) list"

type_synonym jobject = "(jstring \<times> json) list"

datatype js_error = SyntaxError

text \<open>
  \<open>JSON.parse\<close> is the platform's; it is a parameter \<open>parse\<close> of the model, returning
  \<open>Inl SyntaxError\<close> where \<open>JSON.parse\<close> throws.  \<open>localStorage\<close> is a map from keys to
  strings, \<open>getItem\<close> returning \<open>null\<close> (\<open>None\<close>) for a missing entry.
\<close>

type_synonym json_parse = "jstring \<Rightarrow> js_error + json"
type_synonym local_storage = "jstring \<Rightarrow> jstring option"

definition KEY_SETTINGS :: jstring where
  "KEY_SETTINGS = u ''novelWriter_settings''"

definition KEY_FORMATTING :: jstring where
  "KEY_FORMATTING = u ''novelWriter_formatting''"

definition DEFAULT_SETTINGS :: jobject where
  "DEFAULT_SETTINGS =
     [(u ''model'', JStr (u ''gemini-1.5-pro'')),
      (u ''temperature'', JNum 8 (-1)),
      (u ''maxWords'', JNum 150 0),
      (u ''paragraphLength'', JStr (u ''medium'')),
      (u ''language'', JStr (u ''EN'')),
      (u ''genre'', JStr (u ''fantasy'')),
      (u ''style'', JStr (u ''descriptive'')),
      (u ''tone'', JStr (u ''neutral'')),
      (u ''pov'', JStr (u ''third-limited'')),
      (u ''streaming'', JBool True)]"

definition DEFAULT_FORMATTING :: jobject where
  "DEFAULT_FORMATTING =
     [(u ''fontFamily'', JStr (u (CHR 0x27 # ''Merriweather'' @ CHR 0x27 # '', serif''))),
      (u ''fontSize'', JNum 18 0),
      (u ''lineHeight'', JNum 18 (-1)),
      (u ''paragraphSpacing'', JNum 15 (-1)),
      (u ''dialogueColor'', JStr (u ''#e67e22'')),
      (u ''thoughtsColor'', JStr (u ''#3498db'')),
      (u ''emphasisColor'', JStr (u ''#9b59b6'')),
      (u ''textColor'', JStr (u ''#2c3e50'')),
      (u ''bgColor'', JStr (u ''#fdf6e3''))]"

text \<open>
  \<open>safeJsonParse(json, defaultValue)\<close>: a \<open>null\<close> or empty string is falsy and gives the
  default; the \<open>catch\<close> turns a throwing \<open>JSON.parse\<close> into the default as well.
\<close>

definition safeJsonParse :: "json_parse \<Rightarrow> jstring option \<Rightarrow> json \<Rightarrow> js_error + json" where
  "safeJsonParse parse json defaultValue =
     (case json of
        None \<Rightarrow> Inr defaultValue
      | Some s \<Rightarrow>
          if s = [] then Inr defaultValue
          else (case parse s of Inl e \<Rightarrow> Inr defaultValue | Inr v \<Rightarrow> Inr v))"

text \<open>
  Object spread \<open>{...a, ...b}\<close> copies the own enumerable properties of each operand in
  turn into a fresh object, a later property replacing an earlier one of the same key.
  An object has its properties, an array its elements under their indices, a string its
  code units under their indices, and \<open>null\<close>, a boolean or a number has none.
\<close>

fun digits :: "nat \<Rightarrow> jstring" where
  "digits n = (if n < 10 then [48 + n] else digits (n div 10) @ [48 + n mod 10])"

declare digits.simps [simp del]

definition own_props :: "json \<Rightarrow> jobject" where
  "own_props v =
     (case v of
        JObj kvs \<Rightarrow> kvs
      | JArr xs \<Rightarrow> map (\<lambda>i. (digits i, xs ! i)) [0..<length xs]
      | JStr s \<Rightarrow> map (\<lambda>i. (digits i, JStr [s ! i])) [0..<length s]
      | _ \<Rightarrow> [])"

definition spread_into :: "jobject \<Rightarrow> jobject \<Rightarrow> jobject" where
  "spread_into target src = fold (\<lambda>(k, v). AList.update k v) src target"

text \<open>
  The value of property \<open>k\<close> of an object.  Where a list names a key twice, the later
  entry is the property, as in an object literal.
\<close>

definition lookup :: "jobject \<Rightarrow> jstring \<Rightarrow> json option" where
  "lookup obj k = map_of (rev obj) k"

definition loadSettings :: "json_parse \<Rightarrow> local_storage \<Rightarrow> js_error + jobject" where
  "loadSettings parse store =
     (let data = store KEY_SETTINGS in
      case safeJsonParse parse data (JObj []) of
        Inl e \<Rightarrow> Inl e
      | Inr saved \<Rightarrow> Inr (spread_into (spread_into [] DEFAULT_SETTINGS) (own_props saved)))"

definition loadFormatting :: "json_parse \<Rightarrow> local_storage \<Rightarrow> js_error + jobject" where
  "loadFormatting parse store =
     (let data = store KEY_FORMATTING in
      case safeJsonParse parse data (JObj []) of
        Inl e \<Rightarrow> Inl e
      | Inr saved \<Rightarrow> Inr (spread_into (spread_into [] DEFAULT_FORMATTING) (own_props saved)))"


section \<open>Text generation (the Gemini module)\<close>

subsection \<open>\<open>stripPrefill\<close>\<close>

text \<open>
  The loop \<open>for (i = Math.min(trimmedPrefill.length, 50); i > 0; i--)\<close>, counting down
  from its argument: the first (longest) suffix of the trimmed prefill that the trimmed
  text starts with ends the search.
\<close>

fun prefill_overlap :: "jstring \<Rightarrow> jstring \<Rightarrow> nat \<Rightarrow> jstring option" where
  "prefill_overlap trimmedGenerated trimmedPrefill 0 = None"
| "prefill_overlap trimmedGenerated trimmedPrefill (Suc i) =
     (let prefillSuffix = drop (length trimmedPrefill - Suc i) trimmedPrefill in
      if prefix prefillSuffix trimmedGenerated
      then Some (trimStart (drop (Suc i) trimmedGenerated))
      else prefill_overlap trimmedGenerated trimmedPrefill i)"

definition stripPrefill :: "jstring \<Rightarrow> jstring \<Rightarrow> jstring" where
  "stripPrefill generated prefill =
     (if prefill = [] \<or> generated = [] then generated
      else
        let trimmedGenerated = trimStart generated;
            trimmedPrefill = trim prefill
        in if prefix trimmedPrefill trimmedGenerated
           then trimStart (drop (length trimmedPrefill) trimmedGenerated)
           else (case prefill_overlap trimmedGenerated trimmedPrefill
                        (min (length trimmedPrefill) 50) of
                   Some r \<Rightarrow> r
                 | None \<Rightarrow> generated))"

subsection \<open>\<open>ensureProperEnding\<close>\<close>

text \<open>
  \<open>s.lastIndexOf(c, fromIndex)\<close>: the greatest index not above \<open>fromIndex\<close> (a negative
  \<open>fromIndex\<close> counts as 0) that holds \<open>c\<close>, or \<open>-1\<close>.
\<close>

definition lastIndexOfFrom :: "jstring \<Rightarrow> jchar \<Rightarrow> int \<Rightarrow> int" where
  "lastIndexOfFrom s c fromIndex =
     (let hits = filter (\<lambda>i. s ! i = c) [0..<min (Suc (nat (max fromIndex 0))) (length s)]
      in if hits = [] then - 1 else int (last hits))"

definition lastIndexOf :: "jstring \<Rightarrow> jchar \<Rightarrow> int" where
  "lastIndexOf s c = lastIndexOfFrom s c (int (length s))"

definition sentence_end :: "jchar \<Rightarrow> bool" where
  "sentence_end c \<longleftrightarrow> c = of_char CHR ''.'' \<or> c = of_char CHR ''!'' \<or> c = of_char CHR ''?''"

definition quote_char :: "jchar \<Rightarrow> bool" where
  "quote_char c \<longleftrightarrow> c = of_char CHR 0x22 \<or> c = of_char CHR 0x27"

text \<open>\<open>/[.!?]["']?$/\<close>: the text ends in \<open>.\<close>, \<open>!\<close> or \<open>?\<close>, or in one of them followed by one
  quote character.\<close>

definition properEndings :: "jstring \<Rightarrow> bool" where
  "properEndings s \<longleftrightarrow>
     (s \<noteq> [] \<and> sentence_end (last s)) \<or>
     (length s \<ge> 2 \<and> quote_char (last s) \<and> sentence_end (last (butlast s)))"

text \<open>The class \<open>[,;:\-\<dots>]\<close> before \<open>$\<close>, whose last member is the em dash U+2014.\<close>

definition incompleteEndings :: "jstring \<Rightarrow> bool" where
  "incompleteEndings s \<longleftrightarrow>
     s \<noteq> [] \<and> (last s = of_char CHR '','' \<or> last s = of_char CHR '';'' \<or> last s = of_char CHR '':'' \<or>
               last s = of_char CHR ''-'' \<or> last s = 8212)"

text \<open>
  \<open>lastComplete > trimmed.length * 0.5\<close> compares an integer with half an integer, which
  is \<open>2 * lastComplete > length\<close>.  The first part returns the truncated text when the
  soft-separator branch applies, and \<open>None\<close> when control falls through.
\<close>

definition truncate_at_sentence :: "jstring \<Rightarrow> jstring option" where
  "truncate_at_sentence trimmed =
     (if incompleteEndings trimmed then
        let lastPeriod = lastIndexOf trimmed (of_char CHR ''.'');
            lastQuestion = lastIndexOf trimmed (of_char CHR ''?'');
            lastExclamation = lastIndexOf trimmed (of_char CHR ''!'');
            lastComplete = max (max lastPeriod lastQuestion) lastExclamation
        in if 2 * lastComplete > int (length trimmed) then
             let endIndex = nat (lastComplete + 1);
                 endIndex' = (if endIndex < length trimmed \<and> quote_char (trimmed ! endIndex)
                              then endIndex + 1 else endIndex)
             in Some (take endIndex' trimmed)
           else None
      else None)"

definition ensureProperEnding :: "jstring \<Rightarrow> jstring" where
  "ensureProperEnding text =
     (if text = [] \<or> trim text = [] then text
      else
        let trimmed = trim text in
        if properEndings trimmed then trimmed
        else if suffix (u ''...'') trimmed then trimmed
        else (case truncate_at_sentence trimmed of
                Some r \<Rightarrow> r
              | None \<Rightarrow>
                  let lastQuote = lastIndexOf trimmed (of_char CHR 0x22);
                      secondLastQuote = lastIndexOfFrom trimmed (of_char CHR 0x22) (lastQuote - 1)
                  in if lastQuote > secondLastQuote \<and> lastQuote \<noteq> int (length trimmed) - 1
                     then trimmed @ [of_char CHR ''.'', of_char CHR 0x22]
                     else trimmed @ [of_char CHR ''.'']))"

subsection \<open>\<open>generateWithoutStreaming\<close>\<close>

text \<open>
  What \<open>fetch\<close> and \<open>response.json()\<close> deliver is the input of the model.  An exception is
  an \<open>AbortError\<close> or an error with a message.  Of the response body only the two fields
  the code reads are kept, in this order: \<open>error.message\<close> and
  \<open>candidates[0].content.parts[0].text\<close>, each \<open>None\<close> when the optional chain yields
  \<open>undefined\<close>.  A \<open>Response\<close> carries \<open>ok\<close>, \<open>status\<close>, \<open>statusText\<close> and the body.
\<close>

datatype exn = AbortError | Error jstring

datatype body = NotJson exn | Json "jstring option" "jstring option"

datatype fetched = Rejected exn | Response bool nat jstring body

datatype callback = OnChunk jstring jstring | OnComplete jstring | OnError exn

definition EMPTY_RESPONSE :: exn where
  "EMPTY_RESPONSE = Error (u ''EMPTY_RESPONSE: The AI returned an empty response'')"

definition GENERATION_CANCELLED :: exn where
  "GENERATION_CANCELLED = Error (u ''GENERATION_CANCELLED: Generation was stopped by user'')"

text \<open>\<open>a || b\<close> on strings that may be \<open>undefined\<close>: the first operand unless it is
  \<open>undefined\<close> or empty.\<close>

definition or_else :: "jstring option \<Rightarrow> jstring \<Rightarrow> jstring" where
  "or_else a b = (case a of None \<Rightarrow> b | Some s \<Rightarrow> if s = [] then b else s)"

text \<open>
  The \<open>catch\<close> clause shared by both variants: every exception of the \<open>try\<close> block ends
  in one call of \<open>onError\<close>.  The result is the list of callbacks made, in order; \<open>Inl\<close>
  would be an exception leaving the function, that is a rejected promise.
\<close>

definition catch_all :: "exn + jstring \<Rightarrow> exn + callback list" where
  "catch_all r =
     (case r of
        Inr text \<Rightarrow> Inr [OnComplete text]
      | Inl AbortError \<Rightarrow> Inr [OnError GENERATION_CANCELLED]
      | Inl error \<Rightarrow> Inr [OnError error])"

text \<open>The \<open>try\<close> block of the variant with a prefill (the module with \<open>stripPrefill\<close>).\<close>

definition try_generate :: "fetched \<Rightarrow> jstring \<Rightarrow> exn + jstring" where
  "try_generate response prefill =
     (case response of
        Rejected e \<Rightarrow> Inl e
      | Response ok status statusText b \<Rightarrow>
          if \<not> ok then
            let errorMsg = or_else (case b of NotJson e \<Rightarrow> None | Json m t \<Rightarrow> m)
                             (or_else (Some statusText) (u ''Unknown error''))
            in Inl (Error (u ''API_ERROR_'' @ digits status @ u '': '' @ errorMsg))
          else (case b of
                  NotJson e \<Rightarrow> Inl e
                | Json m t \<Rightarrow>
                    let text = or_else t [] in
                    if text = [] then Inl EMPTY_RESPONSE
                    else
                      let text = stripPrefill text prefill in
                      if text = [] \<or> length (trim text) = 0 then Inl EMPTY_RESPONSE
                      else Inr text))"

definition generateWithoutStreaming :: "fetched \<Rightarrow> jstring \<Rightarrow> exn + callback list" where
  "generateWithoutStreaming response prefill = catch_all (try_generate response prefill)"

text \<open>The variant of js/gemini.js, which has no prefill.\<close>

definition try_generate_plain :: "fetched \<Rightarrow> exn + jstring" where
  "try_generate_plain response =
     (case response of
        Rejected e \<Rightarrow> Inl e
      | Response ok status statusText b \<Rightarrow>
          if \<not> ok then
            let errorMsg = or_else (case b of NotJson e \<Rightarrow> None | Json m t \<Rightarrow> m) statusText
            in Inl (Error (u ''API_ERROR_'' @ digits status @ u '': '' @ errorMsg))
          else (case b of
                  NotJson e \<Rightarrow> Inl e
                | Json m t \<Rightarrow>
                    let text = or_else t [] in
                    if text = [] then Inl EMPTY_RESPONSE
                    else Inr text))"

definition generateWithoutStreaming_plain :: "fetched \<Rightarrow> exn + callback list" where
  "generateWithoutStreaming_plain response = catch_all (try_generate_plain response)"

section \<open>The formatters\<close>

subsection \<open>Global replacement of a delimited run\<close>

definition quot :: jchar where "quot = 34"     \<comment> \<open>the double quote\<close>
definition apos :: jchar where "apos = 39"     \<comment> \<open>the single quote\<close>
definition star :: jchar where "star = 42"     \<comment> \<open>the asterisk\<close>
definition newline :: jchar where "newline = 10"

text \<open>
  \<open>s.replace(/d([^d]+)d/g, f)\<close> for a delimiter character \<open>d\<close>, as in \<open>/"([^"]+)"/g\<close>,
  \<open>/'([^']+)'/g\<close> and \<open>/\*([^*]+)\*/g\<close>.  The scan goes from left to right.  At a
  delimiter that is followed by at least one other character and then by a delimiter,
  the whole run is replaced by \<open>f\<close> of the content between the two (the class \<open>[^d]\<close>
  takes line breaks as well), and the scan goes on behind the closing delimiter.
  Everywhere else the character is kept and the scan moves one character on.
\<close>

function replace_delimited :: "jchar \<Rightarrow> (jstring \<Rightarrow> jstring) \<Rightarrow> jstring \<Rightarrow> jstring" where
  "replace_delimited d f [] = []"
| "replace_delimited d f (c # rest) =
     (if c = d \<and> takeWhile (\<lambda>x. x \<noteq> d) rest \<noteq> [] \<and> dropWhile (\<lambda>x. x \<noteq> d) rest \<noteq> []
      then f (takeWhile (\<lambda>x. x \<noteq> d) rest) @ replace_delimited d f (tl (dropWhile (\<lambda>x. x \<noteq> d) rest))
      else c # replace_delimited d f rest)"
  by pat_completeness auto
termination
proof (relation "measure (\<lambda>(d, f, s). length s)")
  fix d :: jchar and f :: "jstring \<Rightarrow> jstring" and c :: jchar and rest :: jstring
  have "length (tl (dropWhile (\<lambda>x. x \<noteq> d) rest)) \<le> length rest"
    using length_dropWhile_le [of "\<lambda>x. x \<noteq> d" rest] by simp
  then show "((d, f, tl (dropWhile (\<lambda>x. x \<noteq> d) rest)), (d, f, c # rest))
               \<in> measure (\<lambda>(d, f, s). length s)"
    by simp
qed simp_all

declare replace_delimited.simps(2) [simp del]

subsection \<open>The real-time formatter of the editor (the variant with the contraction guard)\<close>

text \<open>
  \<open>escapeHtml\<close> of this module writes the text into a detached \<open>div\<close> and reads its
  \<open>innerHTML\<close>: the serialisation of one text node, which escapes \<open>&\<close>, \<open><\<close>, \<open>>\<close> and the
  no-break space U+00A0, and no quote.
\<close>

definition esc_char :: "jchar \<Rightarrow> jstring" where
  "esc_char c =
     (if c = 38 then u ''&amp;''
      else if c = 60 then u ''&lt;''
      else if c = 62 then u ''&gt;''
      else if c = 160 then u ''&nbsp;''
      else [c])"

definition escapeHtml :: "jstring \<Rightarrow> jstring" where
  "escapeHtml s = concat (map esc_char s)"

definition dialogue_span :: "jstring \<Rightarrow> jstring" where
  "dialogue_span content = u ''<span class=\"dialogue\">\"'' @ content @ u ''\"</span>''"

definition thoughts_span :: "jstring \<Rightarrow> jstring" where
  "thoughts_span content =
     u ''<span class=\"thoughts\">'' @ [apos] @ content @ [apos] @ u ''</span>''"

definition emphasis_span :: "jstring \<Rightarrow> jstring" where
  "emphasis_span content = u ''<span class=\"emphasis\">'' @ content @ u ''</span>''"

text \<open>
  \<open>s.replace(/(^|[\s])'([^']+)'/g, (match, prefix, content) => ...)\<close>.  The flag tells
  whether the scan stands at the start of the string, the only place where \<open>^\<close> matches
  (the expression has no \<open>m\<close> flag).  There the first alternative is tried first: the
  string starts with the opening quote.  The second alternative is one white-space
  character followed by the opening quote; it is kept in front of the span.
\<close>

definition closed_run :: "jchar \<Rightarrow> jstring \<Rightarrow> bool" where
  "closed_run d s \<longleftrightarrow> takeWhile (\<lambda>x. x \<noteq> d) s \<noteq> [] \<and> dropWhile (\<lambda>x. x \<noteq> d) s \<noteq> []"

function replace_thoughts :: "bool \<Rightarrow> jstring \<Rightarrow> jstring" where
  "replace_thoughts at_start [] = []"
| "replace_thoughts at_start (c # rest) =
     (if at_start \<and> c = apos \<and> closed_run apos rest
      then thoughts_span (takeWhile (\<lambda>x. x \<noteq> apos) rest)
           @ replace_thoughts False (tl (dropWhile (\<lambda>x. x \<noteq> apos) rest))
      else if is_space c \<and> rest \<noteq> [] \<and> hd rest = apos \<and> closed_run apos (tl rest)
      then c # thoughts_span (takeWhile (\<lambda>x. x \<noteq> apos) (tl rest))
           @ replace_thoughts False (tl (dropWhile (\<lambda>x. x \<noteq> apos) (tl rest)))
      else c # replace_thoughts False rest)"
  by pat_completeness auto
termination
proof (relation "measure (\<lambda>(b, s). length s)")
  fix c :: jchar and rest :: jstring
  have a: "length (tl (dropWhile (\<lambda>x. x \<noteq> apos) rest)) \<le> length rest"
    using length_dropWhile_le [of "\<lambda>x. x \<noteq> apos" rest] by simp
  then show "((False, tl (dropWhile (\<lambda>x. x \<noteq> apos) rest)), (b, c # rest))
               \<in> measure (\<lambda>(b, s). length s)" for b
    by simp
  have "length (tl (dropWhile (\<lambda>x. x \<noteq> apos) (tl rest))) \<le> length rest"
    using length_dropWhile_le [of "\<lambda>x. x \<noteq> apos" "tl rest"] by simp
  then show "((False, tl (dropWhile (\<lambda>x. x \<noteq> apos) (tl rest))), (b, c # rest))
               \<in> measure (\<lambda>(b, s). length s)" for b
    by simp
qed simp_all

declare replace_thoughts.simps(2) [simp del]

text \<open>The markup \<open>applyRealtimeFormatting\<close> builds from the text of the element: escaping,
  then the three replacements in the order of the source.\<close>

definition formattedHtml :: "jstring \<Rightarrow> jstring" where
  "formattedHtml text =
     replace_delimited star emphasis_span
       (replace_thoughts True
          (replace_delimited quot dialogue_span (escapeHtml text)))"

subsection \<open>The real-time formatter of the editor (the variant that looks for character references)\<close>

text \<open>
  The other variant of \<open>applyRealtimeFormatting\<close> escapes in the same way and then uses
  \<open>/&quot;([^&quot;]+)&quot;/g\<close> and \<open>/&#39;([^&#39;]+)&#39;/g\<close>: the delimiter is the
  written-out reference, and the class excludes each of its characters.  A match is the
  delimiter, the longest run of at least one character outside the class, and the
  delimiter again (a shorter run would have to be followed by \<open>&\<close>, which the run does not
  contain).  The emphasis replacement is the same as in the other variant.
\<close>

function replace_between :: "jstring \<Rightarrow> (jstring \<Rightarrow> jstring) \<Rightarrow> jstring \<Rightarrow> jstring" where
  "replace_between delim f [] = []"
| "replace_between delim f (c # rest) =
     (if prefix delim (c # rest)
         \<and> takeWhile (\<lambda>x. x \<notin> set delim) (drop (length delim) (c # rest)) \<noteq> []
         \<and> prefix delim (dropWhile (\<lambda>x. x \<notin> set delim) (drop (length delim) (c # rest)))
      then f (takeWhile (\<lambda>x. x \<notin> set delim) (drop (length delim) (c # rest)))
           @ replace_between delim f
               (drop (length delim) (dropWhile (\<lambda>x. x \<notin> set delim) (drop (length delim) (c # rest))))
      else c # replace_between delim f rest)"
  by pat_completeness auto
termination
proof (relation "measure (\<lambda>(delim, f, s). length s)")
  fix delim :: jstring and c :: jchar and rest :: jstring
  let ?a = "drop (length delim) (c # rest)"
  assume "prefix delim (c # rest)
         \<and> takeWhile (\<lambda>x. x \<notin> set delim) ?a \<noteq> []
         \<and> prefix delim (dropWhile (\<lambda>x. x \<notin> set delim) ?a)"
  then obtain y ys where "takeWhile (\<lambda>x. x \<notin> set delim) ?a = y # ys"
    by (cases "takeWhile (\<lambda>x. x \<notin> set delim) ?a") auto
  then have "length ?a = Suc (length ys) + length (dropWhile (\<lambda>x. x \<notin> set delim) ?a)"
    by (metis length_Cons length_append takeWhile_dropWhile_id)
  moreover have "length ?a \<le> length (c # rest)"
    by simp
  ultimately have "length (dropWhile (\<lambda>x. x \<notin> set delim) ?a) < length (c # rest)"
    by linarith
  then show "((delim, f, drop (length delim) (dropWhile (\<lambda>x. x \<notin> set delim) ?a)), (delim, f, c # rest))
               \<in> measure (\<lambda>(delim, f, s). length s)" for f :: "jstring \<Rightarrow> jstring"
    by simp
qed simp_all

declare replace_between.simps(2) [simp del]

definition dialogue_span_plain :: "jstring \<Rightarrow> jstring" where
  "dialogue_span_plain content = u ''<span class=\"dialogue\">\"'' @ content @ u ''\"</span>''"

definition formattedHtml_references :: "jstring \<Rightarrow> jstring" where
  "formattedHtml_references text =
     replace_delimited star emphasis_span
       (replace_between (u ''&#39;'') thoughts_span
          (replace_between (u ''&quot;'') dialogue_span_plain (escapeHtml text)))"

subsection \<open>The preview formatter (js/formatter.js)\<close>

record colors =
  dialogueColor :: jstring
  thoughtsColor :: jstring
  emphasisColor :: jstring

text \<open>\<open>escapeHtml\<close> of js/formatter.js replaces \<open>&\<close>, \<open><\<close> and \<open>>\<close> only.\<close>

definition escape_map :: "jchar \<Rightarrow> jstring" where
  "escape_map c =
     (if c = 38 then u ''&amp;'' else if c = 60 then u ''&lt;'' else if c = 62 then u ''&gt;''
      else [c])"

definition escapeHtml_preview :: "jstring \<Rightarrow> jstring" where
  "escapeHtml_preview s = concat (map escape_map s)"

text \<open>
  \<open>text.split(/\n\n+/)\<close>: the text is cut at every maximal run of two or more line
  feeds.  The first argument collects the current piece, in reverse.
\<close>

function split_pieces :: "jstring \<Rightarrow> jstring \<Rightarrow> jstring list" where
  "split_pieces acc [] = [rev acc]"
| "split_pieces acc (c # rest) =
     (if c = newline \<and> rest \<noteq> [] \<and> hd rest = newline
      then rev acc # split_pieces [] (dropWhile (\<lambda>x. x = newline) rest)
      else split_pieces (c # acc) rest)"
  by pat_completeness auto
termination
proof (relation "measure (\<lambda>(acc, s). length s)")
  fix c :: jchar and rest :: jstring
  have "length (dropWhile (\<lambda>x. x = newline) rest) \<le> length rest"
    by (rule length_dropWhile_le)
  then show "(([], dropWhile (\<lambda>x. x = newline) rest), (acc, c # rest))
               \<in> measure (\<lambda>(acc, s). length s)" for acc :: jstring
    by simp
qed simp_all

declare split_pieces.simps(2) [simp del]

definition split_paragraphs :: "jstring \<Rightarrow> jstring list" where
  "split_paragraphs text = split_pieces [] text"

definition dialogue_span_preview :: "colors \<Rightarrow> jstring \<Rightarrow> jstring" where
  "dialogue_span_preview cs content =
     u ''<span class=\"dialogue\" style=\"color: '' @ dialogueColor cs @ u ''\">\"''
       @ escapeHtml_preview content @ u ''\"</span>''"

definition thoughts_span_preview :: "colors \<Rightarrow> jstring \<Rightarrow> jstring" where
  "thoughts_span_preview cs content =
     u ''<span class=\"thoughts\" style=\"color: '' @ thoughtsColor cs @ u ''\">'' @ [apos]
       @ escapeHtml_preview content @ [apos] @ u ''</span>''"

definition emphasis_span_preview :: "colors \<Rightarrow> jstring \<Rightarrow> jstring" where
  "emphasis_span_preview cs content =
     u ''<span class=\"emphasis\" style=\"color: '' @ emphasisColor cs @ u ''\">''
       @ escapeHtml_preview content @ u ''</span>''"

text \<open>
  The last replacement of \<open>formatText\<close>, with the expression
  \<open>/(<span class="(?:dialogue|thoughts|emphasis)"[^>]*>.*?<\/span>)|([^<]+)/g\<close>.

  The first alternative: the literal start of a span of one of the three classes, the
  rest of the tag up to the first \<open>>\<close>, then, lazily, characters other than line
  terminators (\<open>.\<close> matches none of U+000A, U+000D, U+2028, U+2029) up to the first
  \<open></span>\<close>.  \<open>find_close\<close> is that lazy part: the number of characters before the
  first \<open></span>\<close>, if no line terminator comes earlier.  \<open>span_length\<close> is the length of
  the whole match.
\<close>

definition line_terminator :: "jchar \<Rightarrow> bool" where
  "line_terminator c \<longleftrightarrow> c = 10 \<or> c = 13 \<or> c = 8232 \<or> c = 8233"

fun find_close :: "jstring \<Rightarrow> nat option" where
  "find_close [] = None"
| "find_close (c # rest) =
     (if prefix (u ''</span>'') (c # rest) then Some 0
      else if line_terminator c then None
      else map_option Suc (find_close rest))"

definition class_name_length :: "jstring \<Rightarrow> nat option" where
  "class_name_length s =
     (if prefix (u ''dialogue'') s then Some 8
      else if prefix (u ''thoughts'') s then Some 8
      else if prefix (u ''emphasis'') s then Some 8
      else None)"

definition span_length :: "jstring \<Rightarrow> nat option" where
  "span_length s =
     (if prefix (u ''<span class=\"'') s then
        (case class_name_length (drop 13 s) of
           None \<Rightarrow> None
         | Some n \<Rightarrow>
             let after_name = drop (13 + n) s in
             if after_name \<noteq> [] \<and> hd after_name = quot then
               let attrs = takeWhile (\<lambda>x. x \<noteq> 62) (tl after_name);
                   after_attrs = dropWhile (\<lambda>x. x \<noteq> 62) (tl after_name)
               in if after_attrs = [] then None
                  else (case find_close (tl after_attrs) of
                          None \<Rightarrow> None
                        | Some k \<Rightarrow> Some (13 + n + 1 + length attrs + 1 + k + 7))
             else None)
      else None)"

text \<open>
  The replacement keeps a matched span, escapes a matched run of characters other than
  \<open><\<close> (the second alternative), and leaves a \<open><\<close> at which neither alternative matches.
\<close>

function escape_remaining :: "jstring \<Rightarrow> jstring" where
  "escape_remaining [] = []"
| "escape_remaining (c # rest) =
     (case span_length (c # rest) of
        Some n \<Rightarrow> take (Suc (n - 1)) (c # rest) @ escape_remaining (drop (n - 1) rest)
      | None \<Rightarrow>
          if c \<noteq> 60
          then escapeHtml_preview (c # takeWhile (\<lambda>x. x \<noteq> 60) rest)
               @ escape_remaining (dropWhile (\<lambda>x. x \<noteq> 60) rest)
          else c # escape_remaining rest)"
  by pat_completeness auto
termination
proof (relation "measure length")
  fix rest :: jstring
  show "(dropWhile (\<lambda>x. x \<noteq> 60) rest, c # rest) \<in> measure length" for c :: jchar
    using length_dropWhile_le [of "\<lambda>x. x \<noteq> 60" rest] by simp
qed simp_all

declare escape_remaining.simps(2) [simp del]

definition format_paragraph :: "colors \<Rightarrow> jstring \<Rightarrow> jstring" where
  "format_paragraph cs paragraph =
     (if trim paragraph = [] then []
      else
        let formatted = replace_delimited quot (dialogue_span_preview cs) paragraph;
            formatted = replace_delimited apos (thoughts_span_preview cs) formatted;
            formatted = replace_delimited star (emphasis_span_preview cs) formatted;
            formatted = escape_remaining formatted
        in u ''<p>'' @ formatted @ u ''</p>'')"

definition formatText :: "jstring \<Rightarrow> colors \<Rightarrow> jstring" where
  "formatText text cs =
     (if text = [] then []
      else concat (map (format_paragraph cs) (split_paragraphs text)))"

section \<open>The editor: a contenteditable element\<close>

subsection \<open>The content of the element\<close>

text \<open>
  The children of the editor element form a tree of text nodes and elements.  The
  formatter creates \<open>span\<close> elements only, so an element is kept as its class and its
  children.
\<close>

datatype node = TextNode jstring | Element jstring "node list"

fun textContent :: "node \<Rightarrow> jstring" where
  "textContent (TextNode s) = s"
| "textContent (Element cls ns) = concat (map textContent ns)"

text \<open>Reading \<open>innerHTML\<close>: text is escaped as in \<^const>\<open>escapeHtml\<close>.\<close>

fun serialize :: "node \<Rightarrow> jstring" where
  "serialize (TextNode s) = escapeHtml s"
| "serialize (Element cls ns) =
     u ''<span class=\"'' @ cls @ u ''\">'' @ concat (map serialize ns) @ u ''</span>''"

text \<open>
  Writing \<open>innerHTML\<close> parses markup.  The input stream is preprocessed first: a
  carriage return followed by a line feed, and a carriage return alone, become one line
  feed.
\<close>

fun normalize_newlines :: "jstring \<Rightarrow> jstring" where
  "normalize_newlines [] = []"
| "normalize_newlines [c] = [if c = 13 then 10 else c]"
| "normalize_newlines (c # d # s) =
     (if c = 13 \<and> d = 10 then 10 # normalize_newlines s
      else if c = 13 then 10 # normalize_newlines (d # s)
      else c # normalize_newlines (d # s))"

text \<open>
  The model reads the markup the formatter writes: the four character references of
  \<^const>\<open>esc_char\<close>, the start tag of a \<open>span\<close> with a class, the end tag of a \<open>span\<close>, and any
  other character as itself.  The tokens are put into a tree with a stack of open
  elements, as the HTML parser does: consecutive characters join into one text node, the
  character U+0000 is ignored, an end tag closes the innermost open element, an end tag
  without an open element is dropped, and open elements are closed at the end.
\<close>

datatype token = Chr jchar | Open jstring | Close

function tokenize :: "jstring \<Rightarrow> token list" where
  "tokenize s =
     (if s = [] then []
      else if prefix (u ''&amp;'') s then Chr 38 # tokenize (drop 5 s)
      else if prefix (u ''&lt;'') s then Chr 60 # tokenize (drop 4 s)
      else if prefix (u ''&gt;'') s then Chr 62 # tokenize (drop 4 s)
      else if prefix (u ''&nbsp;'') s then Chr 160 # tokenize (drop 6 s)
      else if prefix (u ''<span class=\"'') s
              \<and> prefix (u ''\">'') (dropWhile (\<lambda>x. x \<noteq> quot) (drop 13 s))
           then Open (takeWhile (\<lambda>x. x \<noteq> quot) (drop 13 s))
                # tokenize (drop 2 (dropWhile (\<lambda>x. x \<noteq> quot) (drop 13 s)))
      else if prefix (u ''</span>'') s then Close # tokenize (drop 7 s)
      else Chr (hd s) # tokenize (tl s))"
  by pat_completeness auto
termination
proof (relation "measure length")
  fix s :: jstring
  assume "prefix (u ''<span class=\"'') s
              \<and> prefix (u ''\">'') (dropWhile (\<lambda>x. x \<noteq> quot) (drop 13 s))"
  then obtain r where "dropWhile (\<lambda>x. x \<noteq> quot) (drop 13 s) = u ''\">'' @ r"
    by (auto simp: prefix_def)
  moreover have "length (dropWhile (\<lambda>x. x \<noteq> quot) (drop 13 s)) \<le> length s"
    using length_dropWhile_le [of "\<lambda>x. x \<noteq> quot" "drop 13 s"] by simp
  ultimately show "(drop 2 (dropWhile (\<lambda>x. x \<noteq> quot) (drop 13 s)), s) \<in> measure length"
    by (simp add: u_def)
qed (auto simp: u_def)

declare tokenize.simps [simp del]

text \<open>The children collected so far are kept in reverse; \<open>add_char\<close> extends the last text
  node or starts one.\<close>

fun add_char :: "jchar \<Rightarrow> node list \<Rightarrow> node list" where
  "add_char c (TextNode s # done) = TextNode (s @ [c]) # done"
| "add_char c done = TextNode [c] # done"

fun close_all :: "(jstring \<times> node list) list \<Rightarrow> node list \<Rightarrow> node list" where
  "close_all [] cur = rev cur"
| "close_all ((cls, parent) # stack) cur = close_all stack (Element cls (rev cur) # parent)"

fun build :: "token list \<Rightarrow> (jstring \<times> node list) list \<Rightarrow> node list \<Rightarrow> node list" where
  "build [] stack cur = close_all stack cur"
| "build (Chr c # ts) stack cur =
     (if c = 0 then build ts stack cur else build ts stack (add_char c cur))"
| "build (Open cls # ts) stack cur = build ts ((cls, cur) # stack) []"
| "build (Close # ts) [] cur = build ts [] cur"
| "build (Close # ts) ((cls, parent) # stack) cur = build ts stack (Element cls (rev cur) # parent)"

definition parse_html :: "jstring \<Rightarrow> node list" where
  "parse_html markup = build (tokenize (normalize_newlines markup)) [] []"

subsection \<open>The selection\<close>

text \<open>
  A boundary point of a range is the document's start \<open>(document, 0)\<close>, where
  \<open>document.createRange()\<close> puts both ends; or a point inside a text node, given by the
  index of the text node in document order and the offset in it; or a point between the
  children of an element of the editor, given by the number of the editor's text nodes in
  front of it.  A selection is absent (\<open>rangeCount\<close> is 0) or one range.
\<close>

datatype point = DocumentStart | InText nat nat | BeforeText nat

type_synonym range = "point \<times> point"

record editor =
  children :: "node list"
  selection :: "range option"

fun text_nodes :: "node \<Rightarrow> jstring list" where
  "text_nodes (TextNode s) = [s]"
| "text_nodes (Element cls ns) = concat (map text_nodes ns)"

definition editor_text_nodes :: "editor \<Rightarrow> jstring list" where
  "editor_text_nodes ed = concat (map text_nodes (children ed))"

text \<open>\<open>element.textContent\<close>, and \<open>getPlainText\<close>, which is \<open>element.textContent || ''\<close>.\<close>

definition element_text :: "editor \<Rightarrow> jstring" where
  "element_text ed = concat (map textContent (children ed))"

definition getPlainText :: "editor \<Rightarrow> jstring" where
  "getPlainText ed = (if element_text ed = [] then [] else element_text ed)"

definition innerHTML :: "editor \<Rightarrow> jstring" where
  "innerHTML ed = concat (map serialize (children ed))"

text \<open>The number of characters of the editor's text in front of a boundary point: the
  length of \<open>toString()\<close> of the range from the start of the element to the point.\<close>

definition chars_before :: "editor \<Rightarrow> point \<Rightarrow> nat" where
  "chars_before ed p =
     (case p of
        DocumentStart \<Rightarrow> 0
      | InText i off \<Rightarrow> length (concat (take i (editor_text_nodes ed))) + off
      | BeforeText i \<Rightarrow> length (concat (take i (editor_text_nodes ed))))"

record position =
  pos_start :: nat
  pos_end :: nat

definition saveCursorPosition :: "editor \<Rightarrow> position option" where
  "saveCursorPosition ed =
     (case selection ed of
        None \<Rightarrow> None
      | Some (range_start, range_end) \<Rightarrow>
          let start = chars_before ed range_start
          in Some \<lparr>pos_start = start,
                   pos_end = start + (chars_before ed range_end - chars_before ed range_start)\<rparr>)"

text \<open>
  \<open>range.setStart\<close> and \<open>range.setEnd\<close>: a start set behind the end moves the end to it,
  an end set in front of the start moves the start to it.  Boundary points are compared
  in document order.
\<close>

fun point_less :: "point \<Rightarrow> point \<Rightarrow> bool" where
  "point_less DocumentStart DocumentStart = False"
| "point_less DocumentStart q = True"
| "point_less p DocumentStart = False"
| "point_less (InText i a) (InText j b) = (i < j \<or> (i = j \<and> a < b))"
| "point_less (InText i a) (BeforeText j) = (i < j)"
| "point_less (BeforeText i) (InText j b) = (i \<le> j)"
| "point_less (BeforeText i) (BeforeText j) = (i < j)"

definition setStart :: "point \<Rightarrow> range \<Rightarrow> range" where
  "setStart p r = (if point_less (snd r) p then (p, p) else (p, snd r))"

definition setEnd :: "point \<Rightarrow> range \<Rightarrow> range" where
  "setEnd p r = (if point_less p (fst r) then (p, p) else (fst r, p))"

text \<open>
  The loop of \<open>restoreCursorPosition\<close>.  \<open>nodeStack\<close> is a list whose head is the top of
  the stack: \<open>pop\<close> takes the head, and pushing the children from the last to the first
  puts them in front in their order.  \<open>textIndex\<close> counts the text nodes met, to name the
  node a boundary point is put in.  With \<open>bounded\<close> the offsets are passed through
  \<open>Math.min(\<dots>, node.length)\<close>, as the variant with \<open>safeStart\<close> and \<open>safeEnd\<close> does.
\<close>

record walk =
  charIndex :: nat
  textIndex :: nat
  foundStart :: bool
  stop :: bool
  range_of :: range

definition visit_text :: "bool \<Rightarrow> nat \<Rightarrow> nat \<Rightarrow> jstring \<Rightarrow> walk \<Rightarrow> walk" where
  "visit_text bounded safeStart safeEnd s w =
     (let nextCharIndex = charIndex w + length s;
          w1 = (if \<not> foundStart w \<and> safeStart \<ge> charIndex w \<and> safeStart \<le> nextCharIndex
                then w\<lparr>range_of := setStart (InText (textIndex w)
                                 (if bounded then min (safeStart - charIndex w) (length s)
                                  else safeStart - charIndex w)) (range_of w),
                       foundStart := True\<rparr>
                else w);
          w2 = (if foundStart w1 \<and> safeEnd \<ge> charIndex w1 \<and> safeEnd \<le> nextCharIndex
                then w1\<lparr>range_of := setEnd (InText (textIndex w1)
                                  (if bounded then min (safeEnd - charIndex w1) (length s)
                                   else safeEnd - charIndex w1)) (range_of w1),
                        stop := True\<rparr>
                else w1)
      in w2\<lparr>charIndex := nextCharIndex, textIndex := textIndex w2 + 1\<rparr>)"

function walk_nodes :: "bool \<Rightarrow> nat \<Rightarrow> nat \<Rightarrow> node list \<Rightarrow> walk \<Rightarrow> walk" where
  "walk_nodes bounded safeStart safeEnd [] w = w"
| "walk_nodes bounded safeStart safeEnd (TextNode s # nodeStack) w =
     (if stop w then w
      else walk_nodes bounded safeStart safeEnd nodeStack (visit_text bounded safeStart safeEnd s w))"
| "walk_nodes bounded safeStart safeEnd (Element cls childNodes # nodeStack) w =
     (if stop w then w
      else walk_nodes bounded safeStart safeEnd (childNodes @ nodeStack) w)"
  by pat_completeness auto
termination
  by (relation "measure (\<lambda>(b, s, e, nodeStack, w). size_list size nodeStack)")
     (auto simp: size_list_append)

definition initial_walk :: walk where
  "initial_walk = \<lparr>charIndex = 0, textIndex = 0, foundStart = False, stop = False,
                    range_of = (DocumentStart, DocumentStart)\<rparr>"

text \<open>The variant that clamps the saved offsets to the length of the text.\<close>

definition restoreCursorPosition :: "editor \<Rightarrow> position option \<Rightarrow> editor" where
  "restoreCursorPosition ed savedPosition =
     (case savedPosition of
        None \<Rightarrow> ed
      | Some saved \<Rightarrow>
          let totalLength = length (element_text ed);
              safeStart = min (pos_start saved) totalLength;
              safeEnd = min (pos_end saved) totalLength;
              w = walk_nodes True safeStart safeEnd (children ed) initial_walk
          in ed\<lparr>selection := Some (range_of w)\<rparr>)"

text \<open>The variant that uses the saved offsets as they are.\<close>

definition restoreCursorPosition_unclamped :: "editor \<Rightarrow> position option \<Rightarrow> editor" where
  "restoreCursorPosition_unclamped ed savedPosition =
     (case savedPosition of
        None \<Rightarrow> ed
      | Some saved \<Rightarrow>
          let w = walk_nodes False (pos_start saved) (pos_end saved) (children ed) initial_walk
          in ed\<lparr>selection := Some (range_of w)\<rparr>)"

subsection \<open>Changing the content\<close>

text \<open>
  Assigning \<open>textContent\<close> or \<open>innerHTML\<close> replaces all children of the element.  A boundary
  point of the selection that was inside the element is then at the element's start;
  the document's start stays where it is.
\<close>

fun relocate :: "point \<Rightarrow> point" where
  "relocate DocumentStart = DocumentStart"
| "relocate p = BeforeText 0"

definition replace_children :: "node list \<Rightarrow> editor \<Rightarrow> editor" where
  "replace_children ns ed =
     \<lparr>children = ns, selection = map_option (\<lambda>(a, b). (relocate a, relocate b)) (selection ed)\<rparr>"

definition set_textContent :: "jstring \<Rightarrow> editor \<Rightarrow> editor" where
  "set_textContent text ed = replace_children (if text = [] then [] else [TextNode text]) ed"

definition set_innerHTML :: "jstring \<Rightarrow> editor \<Rightarrow> editor" where
  "set_innerHTML markup ed = replace_children (parse_html markup) ed"

definition applyRealtimeFormatting :: "editor \<Rightarrow> editor" where
  "applyRealtimeFormatting ed =
     (let cursorPos = saveCursorPosition ed;
          text = element_text ed;
          markup = formattedHtml text
      in if innerHTML ed \<noteq> markup
         then restoreCursorPosition (set_innerHTML markup ed) cursorPos
         else ed)"

definition setPlainText :: "jstring \<Rightarrow> editor \<Rightarrow> editor" where
  "setPlainText text ed =
     (let cursorPos = saveCursorPosition ed;
          ed1 = set_textContent text ed;
          ed2 = applyRealtimeFormatting ed1
      in if cursorPos \<noteq> None then restoreCursorPosition ed2 cursorPos else ed2)"

definition getCursorOffset :: "editor \<Rightarrow> nat" where
  "getCursorOffset ed = (case saveCursorPosition ed of Some pos \<Rightarrow> pos_start pos | None \<Rightarrow> 0)"

definition setCursorOffset :: "nat \<Rightarrow> editor \<Rightarrow> editor" where
  "setCursorOffset offset ed = restoreCursorPosition ed (Some \<lparr>pos_start = offset, pos_end = offset\<rparr>)"

subsection \<open>\<open>handleGenerate\<close>\<close>

text \<open>
  \<open>handleGenerate\<close> reads the caret offset and the text once and keeps the two halves in
  the constants \<open>textBefore\<close> and \<open>textAfter\<close>, over which the callbacks close.  A session
  holds the two.  \<open>onChunk\<close> and \<open>onComplete\<close> are the editor part of the two callbacks, with
  the accumulated text the generator passes them.
\<close>

record session =
  textBefore :: jstring
  textAfter :: jstring

definition start_session :: "editor \<Rightarrow> session" where
  "start_session ed =
     (let cursorPos = getCursorOffset ed;
          fullText = getPlainText ed
      in \<lparr>textBefore = take cursorPos fullText, textAfter = drop cursorPos fullText\<rparr>)"

definition onChunk :: "session \<Rightarrow> jstring \<Rightarrow> editor \<Rightarrow> editor" where
  "onChunk sn generatedText ed =
     (let newText = textBefore sn @ generatedText @ textAfter sn;
          ed1 = setPlainText newText ed;
          newCursorPos = length (textBefore sn) + length generatedText
      in setCursorOffset newCursorPos ed1)"

definition onComplete :: "session \<Rightarrow> jstring \<Rightarrow> editor \<Rightarrow> editor" where
  "onComplete sn generatedText ed =
     (let finalText = textBefore sn @ generatedText @ textAfter sn;
          ed1 = setPlainText finalText ed;
          newCursorPos = length (textBefore sn) + length generatedText
      in setCursorOffset newCursorPos ed1)"

text \<open>A paragraph break inside a string: two line feeds in a row.\<close>

fun has_break :: "jstring \<Rightarrow> bool" where
  "has_break (a # b # rest) \<longleftrightarrow> (a = newline \<and> b = newline) \<or> has_break (b # rest)"
| "has_break [a] \<longleftrightarrow> False"
| "has_break [] \<longleftrightarrow> False"

text \<open>The colours of \<open>DEFAULT_FORMATTING\<close> in js/storage.js.\<close>

definition default_colors :: colors where
  "default_colors =
     \<lparr>dialogueColor = u ''#e67e22'', thoughtsColor = u ''#3498db'', emphasisColor = u ''#9b59b6''\<rparr>"

subsection \<open>The loop over the text nodes in document order\<close>

text \<open>
  The same loop over the list of the text nodes in the order the stack delivers them.
  \<open>locate\<close> names the first text node, counted from \<open>k\<close> and starting at offset \<open>c\<close>, whose
  range of offsets holds \<open>x\<close>, and the offset inside it.  Both serve to state what
  \<open>restoreCursorPosition\<close> selects.
\<close>

fun walk_texts :: "bool \<Rightarrow> nat \<Rightarrow> nat \<Rightarrow> jstring list \<Rightarrow> walk \<Rightarrow> walk" where
  "walk_texts bounded safeStart safeEnd [] w = w"
| "walk_texts bounded safeStart safeEnd (s # ts) w =
     (if stop w then w
      else walk_texts bounded safeStart safeEnd ts (visit_text bounded safeStart safeEnd s w))"

fun locate :: "jstring list \<Rightarrow> nat \<Rightarrow> nat \<Rightarrow> nat \<Rightarrow> point option" where
  "locate [] k c x = None"
| "locate (s # ts) k c x =
     (if c \<le> x \<and> x \<le> c + length s then Some (InText k (x - c))
      else locate ts (Suc k) (c + length s) x)"

subsection \<open>Markup as a list of tokens\<close>

text \<open>
  The markup a list of tokens stands for, and the characters among the tokens.  They
  serve to state what the formatter writes and what the parser reads back.
\<close>

fun render_token :: "token \<Rightarrow> jstring" where
  "render_token (Chr c) = esc_char c"
| "render_token (Open cls) = u ''<span class=\"'' @ cls @ u ''\">''"
| "render_token Close = u ''</span>''"

definition render :: "token list \<Rightarrow> jstring" where
  "render ts = concat (map render_token ts)"

fun token_chars :: "token list \<Rightarrow> jstring" where
  "token_chars [] = []"
| "token_chars (Chr c # ts) = c # token_chars ts"
| "token_chars (t # ts) = token_chars ts"

fun plain_class :: "token \<Rightarrow> bool" where
  "plain_class (Open cls) \<longleftrightarrow>
     quot \<notin> set cls \<and> apos \<notin> set cls \<and> star \<notin> set cls \<and> 13 \<notin> set cls"
| "plain_class t \<longleftrightarrow> True"

text \<open>
  The text held by a list of nodes, and the text held by the elements that the tree
  builder has open.
\<close>

definition nodes_text :: "node list \<Rightarrow> jstring" where
  "nodes_text ns = concat (map textContent ns)"

fun open_text :: "(jstring \<times> node list) list \<Rightarrow> jstring" where
  "open_text [] = []"
| "open_text ((cls, parent) # stack) = open_text stack @ nodes_text (rev parent)"

text \<open>A delimiter passes through a token list when only the character token of the
  delimiter writes it.\<close>

definition transparent :: "jchar \<Rightarrow> token list \<Rightarrow> bool" where
  "transparent d ts \<longleftrightarrow> (\<forall>t \<in> set ts. t \<noteq> Chr d \<longrightarrow> d \<notin> set (render_token t))"


section \<open>Properties of the history\<close>

lemma last_pushHistory: "last (undoStack (pushHistory s h)) = s"
proof (cases "length (undoStack h) > 0 \<and> last (undoStack h) = s")
  case True
  then show ?thesis by (simp add: pushHistory_def)
next
  case False
  have "last (tl (undoStack h @ [s])) = s" if "length (undoStack h @ [s]) > MAX_HISTORY_SIZE"
    using that by (cases "undoStack h") (auto simp: MAX_HISTORY_SIZE_def)
  with False show ?thesis by (auto simp: pushHistory_def Let_def)
qed

lemma pushHistory_nonempty: "undoStack (pushHistory s h) \<noteq> []"
  by (cases "undoStack h") (auto simp: pushHistory_def Let_def MAX_HISTORY_SIZE_def)

text \<open>
  Claim C9.  With a non-empty undo stack, \<open>undo(c)\<close> returns the last snapshot of the
  stack (which is \<open>s\<close> right after \<open>pushHistory(s)\<close>), removes it and pushes \<open>c\<close> onto the
  redo stack; \<open>redo\<close> called next with the returned snapshot returns \<open>c\<close> and puts both
  stacks back as they were before the undo.  With an empty source stack \<open>undo\<close>
  (\<open>redo\<close>) returns \<open>null\<close> and changes neither stack.
\<close>

theorem undo_redo_inverse:
  "(undoStack h \<noteq> [] \<longrightarrow>
      fst (undo c h) = Some (last (undoStack h)) \<and>
      undoStack (snd (undo c h)) = butlast (undoStack h) \<and>
      redoStack (snd (undo c h)) = redoStack h @ [c] \<and>
      redo (last (undoStack h)) (snd (undo c h)) = (Some c, h)) \<and>
   fst (undo c (pushHistory s h)) = Some s \<and>
   (undoStack h = [] \<longrightarrow> undo c h = (None, h)) \<and>
   (redoStack h = [] \<longrightarrow> redo c h = (None, h))"
  by (simp add: undo_def redo_def last_pushHistory pushHistory_nonempty)

theorem undo_redo_inverse_witness:
  "undoStack \<lparr>undoStack = [u ''one'', u ''two''], redoStack = []\<rparr> \<noteq> [] \<and>
   fst (undo (u ''three'') \<lparr>undoStack = [u ''one'', u ''two''], redoStack = []\<rparr>) = Some (u ''two'') \<and>
   redo (u ''two'') (snd (undo (u ''three'') \<lparr>undoStack = [u ''one'', u ''two''], redoStack = []\<rparr>))
     = (Some (u ''three''), \<lparr>undoStack = [u ''one'', u ''two''], redoStack = []\<rparr>) \<and>
   undoStack \<lparr>undoStack = [], redoStack = [u ''three'']\<rparr> = [] \<and>
   undo (u ''x'') \<lparr>undoStack = [], redoStack = [u ''three'']\<rparr>
     = (None, \<lparr>undoStack = [], redoStack = [u ''three'']\<rparr>) \<and>
   redoStack \<lparr>undoStack = [u ''one''], redoStack = []\<rparr> = [] \<and>
   redo (u ''x'') \<lparr>undoStack = [u ''one''], redoStack = []\<rparr>
     = (None, \<lparr>undoStack = [u ''one''], redoStack = []\<rparr>)"
  using undo_redo_inverse [of "\<lparr>undoStack = [u ''one'', u ''two''], redoStack = []\<rparr>" "u ''three''"]
        undo_redo_inverse [of "\<lparr>undoStack = [], redoStack = [u ''three'']\<rparr>" "u ''x''"]
        undo_redo_inverse [of "\<lparr>undoStack = [u ''one''], redoStack = []\<rparr>" "u ''x''"]
  by simp


section \<open>Properties of the settings\<close>

lemma distinct_map_of_rev:
  "distinct (map fst xs) \<Longrightarrow> map_of (rev xs) = map_of xs"
proof (induction xs)
  case Nil
  show ?case by simp
next
  case (Cons kv xs)
  obtain k v where kv: "kv = (k, v)" by (cases kv)
  from Cons.prems have "map_of xs k = None"
    by (simp add: kv map_of_eq_None_iff)
  with Cons show ?case
    by (auto simp: kv fun_eq_iff map_add_def split: option.splits)
qed

lemma map_of_fold_update:
  "map_of (fold (\<lambda>(k, v). AList.update k v) src tgt) = map_of tgt ++ map_of (rev src)"
proof (induction src arbitrary: tgt)
  case Nil
  show ?case by simp
next
  case (Cons kv src)
  obtain k v where kv: "kv = (k, v)" by (cases kv)
  have "map_of (fold (\<lambda>(k, v). AList.update k v) (kv # src) tgt)
      = map_of (AList.update k v tgt) ++ map_of (rev src)"
    using Cons.IH [of "AList.update k v tgt"] by (simp add: kv)
  also have "\<dots> = map_of tgt ++ map_of (rev (kv # src))"
    by (simp add: kv update_conv' map_add_upd_left fun_eq_iff map_add_def split: option.splits)
  finally show ?case .
qed

lemma distinct_fold_update:
  "distinct (map fst tgt) \<Longrightarrow> distinct (map fst (fold (\<lambda>(k, v). AList.update k v) src tgt))"
  by (induction src arbitrary: tgt) (auto simp: distinct_update)

lemma lookup_spread_into:
  assumes "distinct (map fst tgt)"
  shows "lookup (spread_into tgt src) k
           = (case lookup src k of Some x \<Rightarrow> Some x | None \<Rightarrow> lookup tgt k)"
proof -
  have d: "distinct (map fst (spread_into tgt src))"
    unfolding spread_into_def by (rule distinct_fold_update [OF assms])
  have "lookup (spread_into tgt src) k = map_of (spread_into tgt src) k"
    unfolding lookup_def using d by (simp add: distinct_map_of_rev)
  also have "\<dots> = (map_of tgt ++ map_of (rev src)) k"
    unfolding spread_into_def by (simp add: map_of_fold_update)
  also have "\<dots> = (case lookup src k of Some x \<Rightarrow> Some x | None \<Rightarrow> lookup tgt k)"
    unfolding lookup_def by (simp add: map_add_def distinct_map_of_rev [OF assms] split: option.splits)
  finally show ?thesis .
qed

lemma spread_defaults_settings: "spread_into [] DEFAULT_SETTINGS = DEFAULT_SETTINGS"
  by (simp add: spread_into_def DEFAULT_SETTINGS_def u_def)

lemma spread_defaults_formatting: "spread_into [] DEFAULT_FORMATTING = DEFAULT_FORMATTING"
  by (simp add: spread_into_def DEFAULT_FORMATTING_def u_def)

lemma distinct_settings: "distinct (map fst DEFAULT_SETTINGS)"
  by (simp add: DEFAULT_SETTINGS_def u_def)

lemma distinct_formatting: "distinct (map fst DEFAULT_FORMATTING)"
  by (simp add: DEFAULT_FORMATTING_def u_def)

lemma own_props_empty: "own_props (JObj []) = []"
  by (simp add: own_props_def)

lemma spread_into_Nil: "spread_into tgt [] = tgt"
  by (simp add: spread_into_def)


text \<open>
  Claim C10.  \<open>loadSettings\<close> and \<open>loadFormatting\<close> return an object for every storage state
  and every behaviour of \<open>JSON.parse\<close> (the result is never \<open>Inl\<close>, an exception), and the
  object has every key of the defaults.  A missing entry, an empty one and one that
  \<open>JSON.parse\<close> rejects give the defaults themselves.  For an entry that parses, each
  property of the result is the saved one where the saved value has it, and the default
  one otherwise.
\<close>

theorem load_total_defaults_complete:
  "(\<exists>obj. loadSettings parse store = Inr obj \<and>
          (\<forall>k. lookup DEFAULT_SETTINGS k \<noteq> None \<longrightarrow> lookup obj k \<noteq> None)) \<and>
   (store KEY_SETTINGS = None \<or> store KEY_SETTINGS = Some [] \<or>
      (\<exists>s e. store KEY_SETTINGS = Some s \<and> parse s = Inl e)
      \<longrightarrow> loadSettings parse store = Inr DEFAULT_SETTINGS) \<and>
   (\<forall>s v. store KEY_SETTINGS = Some s \<and> s \<noteq> [] \<and> parse s = Inr v
      \<longrightarrow> (\<exists>obj. loadSettings parse store = Inr obj \<and>
            (\<forall>k. lookup obj k = (case lookup (own_props v) k of
                                   Some x \<Rightarrow> Some x | None \<Rightarrow> lookup DEFAULT_SETTINGS k)))) \<and>
   (\<exists>obj. loadFormatting parse store = Inr obj \<and>
          (\<forall>k. lookup DEFAULT_FORMATTING k \<noteq> None \<longrightarrow> lookup obj k \<noteq> None)) \<and>
   (store KEY_FORMATTING = None \<or> store KEY_FORMATTING = Some [] \<or>
      (\<exists>s e. store KEY_FORMATTING = Some s \<and> parse s = Inl e)
      \<longrightarrow> loadFormatting parse store = Inr DEFAULT_FORMATTING) \<and>
   (\<forall>s v. store KEY_FORMATTING = Some s \<and> s \<noteq> [] \<and> parse s = Inr v
      \<longrightarrow> (\<exists>obj. loadFormatting parse store = Inr obj \<and>
            (\<forall>k. lookup obj k = (case lookup (own_props v) k of
                                   Some x \<Rightarrow> Some x | None \<Rightarrow> lookup DEFAULT_FORMATTING k))))"
proof (intro conjI)
  show "\<exists>obj. loadSettings parse store = Inr obj \<and>
          (\<forall>k. lookup DEFAULT_SETTINGS k \<noteq> None \<longrightarrow> lookup obj k \<noteq> None)"
    by (auto simp: loadSettings_def safeJsonParse_def spread_defaults_settings
          lookup_spread_into distinct_settings split: option.splits sum.splits)
  show "store KEY_SETTINGS = None \<or> store KEY_SETTINGS = Some [] \<or>
      (\<exists>s e. store KEY_SETTINGS = Some s \<and> parse s = Inl e)
      \<longrightarrow> loadSettings parse store = Inr DEFAULT_SETTINGS"
    by (auto simp: loadSettings_def safeJsonParse_def spread_defaults_settings
          own_props_empty spread_into_Nil)
  show "\<forall>s v. store KEY_SETTINGS = Some s \<and> s \<noteq> [] \<and> parse s = Inr v
      \<longrightarrow> (\<exists>obj. loadSettings parse store = Inr obj \<and>
            (\<forall>k. lookup obj k = (case lookup (own_props v) k of
                                   Some x \<Rightarrow> Some x | None \<Rightarrow> lookup DEFAULT_SETTINGS k)))"
    by (auto simp: loadSettings_def safeJsonParse_def spread_defaults_settings
          lookup_spread_into distinct_settings)
  show "\<exists>obj. loadFormatting parse store = Inr obj \<and>
          (\<forall>k. lookup DEFAULT_FORMATTING k \<noteq> None \<longrightarrow> lookup obj k \<noteq> None)"
    by (auto simp: loadFormatting_def safeJsonParse_def spread_defaults_formatting
          lookup_spread_into distinct_formatting split: option.splits sum.splits)
  show "store KEY_FORMATTING = None \<or> store KEY_FORMATTING = Some [] \<or>
      (\<exists>s e. store KEY_FORMATTING = Some s \<and> parse s = Inl e)
      \<longrightarrow> loadFormatting parse store = Inr DEFAULT_FORMATTING"
    by (auto simp: loadFormatting_def safeJsonParse_def spread_defaults_formatting
          own_props_empty spread_into_Nil)
  show "\<forall>s v. store KEY_FORMATTING = Some s \<and> s \<noteq> [] \<and> parse s = Inr v
      \<longrightarrow> (\<exists>obj. loadFormatting parse store = Inr obj \<and>
            (\<forall>k. lookup obj k = (case lookup (own_props v) k of
                                   Some x \<Rightarrow> Some x | None \<Rightarrow> lookup DEFAULT_FORMATTING k)))"
    by (auto simp: loadFormatting_def safeJsonParse_def spread_defaults_formatting
          lookup_spread_into distinct_formatting)
qed


theorem load_total_defaults_complete_witness:
  "(\<lambda>k. if k = KEY_SETTINGS then Some (u ''{\"maxWords\":200}'')
         else if k = KEY_FORMATTING then Some (u ''{oops'') else None) KEY_SETTINGS
     = Some (u ''{\"maxWords\":200}'') \<and>
   u ''{\"maxWords\":200}'' \<noteq> [] \<and>
   (\<lambda>s. if s = u ''{\"maxWords\":200}'' then Inr (JObj [(u ''maxWords'', JNum 200 0)])
         else Inl SyntaxError) (u ''{\"maxWords\":200}'')
     = Inr (JObj [(u ''maxWords'', JNum 200 0)]) \<and>
   (\<exists>obj. loadSettings
            (\<lambda>s. if s = u ''{\"maxWords\":200}'' then Inr (JObj [(u ''maxWords'', JNum 200 0)])
                  else Inl SyntaxError)
            (\<lambda>k. if k = KEY_SETTINGS then Some (u ''{\"maxWords\":200}'')
                  else if k = KEY_FORMATTING then Some (u ''{oops'') else None) = Inr obj \<and>
          lookup obj (u ''maxWords'') = Some (JNum 200 0) \<and>
          lookup obj (u ''genre'') = Some (JStr (u ''fantasy''))) \<and>
   loadFormatting
            (\<lambda>s. if s = u ''{\"maxWords\":200}'' then Inr (JObj [(u ''maxWords'', JNum 200 0)])
                  else Inl SyntaxError)
            (\<lambda>k. if k = KEY_SETTINGS then Some (u ''{\"maxWords\":200}'')
                  else if k = KEY_FORMATTING then Some (u ''{oops'') else None)
     = Inr DEFAULT_FORMATTING"
proof -
  let ?parse = "\<lambda>s. if s = u ''{\"maxWords\":200}'' then Inr (JObj [(u ''maxWords'', JNum 200 0)])
                     else Inl SyntaxError"
  let ?store = "\<lambda>k. if k = KEY_SETTINGS then Some (u ''{\"maxWords\":200}'')
                     else if k = KEY_FORMATTING then Some (u ''{oops'') else None"
  note inst = load_total_defaults_complete [of ?parse ?store]
  have keys: "KEY_FORMATTING \<noteq> KEY_SETTINGS"
    by (simp add: KEY_FORMATTING_def KEY_SETTINGS_def u_def)
  have ne: "u ''{\"maxWords\":200}'' \<noteq> []" and bad: "u ''{oops'' \<noteq> u ''{\"maxWords\":200}''"
    by (simp_all add: u_def)
  have st: "?store KEY_SETTINGS = Some (u ''{\"maxWords\":200}'')"
    and fm: "?store KEY_FORMATTING = Some (u ''{oops'')"
    using keys by simp_all
  have pa: "?parse (u ''{\"maxWords\":200}'') = Inr (JObj [(u ''maxWords'', JNum 200 0)])"
    and pb: "?parse (u ''{oops'') = Inl SyntaxError"
    using bad by simp_all
  have "\<exists>obj. loadSettings ?parse ?store = Inr obj \<and>
            (\<forall>k. lookup obj k = (case lookup (own_props (JObj [(u ''maxWords'', JNum 200 0)])) k of
                                   Some x \<Rightarrow> Some x | None \<Rightarrow> lookup DEFAULT_SETTINGS k))"
    by (rule inst [THEN conjunct2, THEN conjunct2, THEN conjunct1, rule_format,
                   OF conjI [OF st conjI [OF ne pa]]])
  then obtain obj where obj: "loadSettings ?parse ?store = Inr obj"
    and lk: "\<And>k. lookup obj k = (case lookup (own_props (JObj [(u ''maxWords'', JNum 200 0)])) k of
                                   Some x \<Rightarrow> Some x | None \<Rightarrow> lookup DEFAULT_SETTINGS k)"
    by (elim exE conjE) simp
  have l1: "lookup obj (u ''maxWords'') = Some (JNum 200 0)"
    by (subst lk) (simp add: own_props_def lookup_def)
  have l2: "lookup obj (u ''genre'') = Some (JStr (u ''fantasy''))"
    by (subst lk) (simp add: own_props_def lookup_def DEFAULT_SETTINGS_def u_def)
  have "\<exists>s e. ?store KEY_FORMATTING = Some s \<and> ?parse s = Inl e"
    using fm pb by (intro exI conjI)
  then have l3: "loadFormatting ?parse ?store = Inr DEFAULT_FORMATTING"
    by (intro inst [THEN conjunct2, THEN conjunct2, THEN conjunct2, THEN conjunct2,
                    THEN conjunct1, rule_format] disjI2)
  show ?thesis
    by (intro conjI exI [of _ obj]) (rule st ne pa obj l1 l2 l3)+
qed


section \<open>Properties of the prefill stripping\<close>

lemma prefill_overlap_None:
  "prefill_overlap tg tp k = None \<longleftrightarrow>
     (\<forall>n. 0 < n \<and> n \<le> k \<longrightarrow> \<not> prefix (drop (length tp - n) tp) tg)"
proof (induction k)
  case 0
  show ?case by auto
next
  case (Suc k)
  show ?case
  proof (cases "prefix (drop (length tp - Suc k) tp) tg")
    case True
    then show ?thesis by (auto simp: Let_def)
  next
    case False
    have "(\<forall>n. 0 < n \<and> n \<le> Suc k \<longrightarrow> \<not> prefix (drop (length tp - n) tp) tg)
        \<longleftrightarrow> (\<forall>n. 0 < n \<and> n \<le> k \<longrightarrow> \<not> prefix (drop (length tp - n) tp) tg)"
      using False by (auto simp: le_Suc_eq)
    with False Suc show ?thesis by (simp add: Let_def)
  qed
qed

lemma prefill_overlap_longest:
  assumes "0 < n" "n \<le> k" "prefix (drop (length tp - n) tp) tg"
    and "\<forall>m. n < m \<and> m \<le> k \<longrightarrow> \<not> prefix (drop (length tp - m) tp) tg"
  shows "prefill_overlap tg tp k = Some (trimStart (drop n tg))"
  using assms
proof (induction k)
  case 0
  then show ?case by simp
next
  case (Suc k)
  show ?case
  proof (cases "n = Suc k")
    case True
    with Suc.prems show ?thesis by (simp add: Let_def)
  next
    case False
    with Suc.prems have "n \<le> k" "n < Suc k" by simp_all
    with Suc.prems have "\<not> prefix (drop (length tp - Suc k) tp) tg" by blast
    moreover have "prefill_overlap tg tp k = Some (trimStart (drop n tg))"
      using Suc.IH Suc.prems \<open>n \<le> k\<close> by simp
    ultimately show ?thesis by (simp add: Let_def)
  qed
qed

text \<open>
  Claim C6.  For a non-empty prefill: when the text, trimmed at its start, starts with
  the trimmed prefill, the whole echo is dropped and the rest is trimmed at its start;
  otherwise the longest suffix of the trimmed prefill, of length between 1 and
  \<open>min (length) 50\<close>, that the trimmed text starts with is dropped and the rest is
  trimmed at its start; with no such suffix the text is returned as it came.  The
  example of the specification yields \<open>open and she stepped inside.\<close>
\<close>

theorem stripPrefill_cases:
  assumes "prefill \<noteq> []"
  shows "(prefix (trim prefill) (trimStart generated) \<longrightarrow>
            stripPrefill generated prefill
              = trimStart (drop (length (trim prefill)) (trimStart generated))) \<and>
         (\<forall>n. \<not> prefix (trim prefill) (trimStart generated) \<and>
              0 < n \<and> n \<le> min (length (trim prefill)) 50 \<and>
              prefix (drop (length (trim prefill) - n) (trim prefill)) (trimStart generated) \<and>
              (\<forall>m. n < m \<and> m \<le> min (length (trim prefill)) 50 \<longrightarrow>
                   \<not> prefix (drop (length (trim prefill) - m) (trim prefill)) (trimStart generated))
            \<longrightarrow> stripPrefill generated prefill = trimStart (drop n (trimStart generated))) \<and>
         (\<not> prefix (trim prefill) (trimStart generated) \<and>
          (\<forall>n. 0 < n \<and> n \<le> min (length (trim prefill)) 50 \<longrightarrow>
               \<not> prefix (drop (length (trim prefill) - n) (trim prefill)) (trimStart generated))
            \<longrightarrow> stripPrefill generated prefill = generated) \<and>
         stripPrefill (u ''the door creaked open and she stepped inside.'') (u ''the door creaked'')
           = u ''open and she stepped inside.''"
proof (intro conjI allI impI)
  assume "prefix (trim prefill) (trimStart generated)"
  then show "stripPrefill generated prefill
              = trimStart (drop (length (trim prefill)) (trimStart generated))"
    using assms by (cases "generated = []") (simp_all add: stripPrefill_def Let_def trimStart_def)
next
  fix n
  assume a: "\<not> prefix (trim prefill) (trimStart generated) \<and>
              0 < n \<and> n \<le> min (length (trim prefill)) 50 \<and>
              prefix (drop (length (trim prefill) - n) (trim prefill)) (trimStart generated) \<and>
              (\<forall>m. n < m \<and> m \<le> min (length (trim prefill)) 50 \<longrightarrow>
                   \<not> prefix (drop (length (trim prefill) - m) (trim prefill)) (trimStart generated))"
  then have ov: "prefill_overlap (trimStart generated) (trim prefill) (min (length (trim prefill)) 50)
               = Some (trimStart (drop n (trimStart generated)))"
    by (intro prefill_overlap_longest) simp_all
  have "generated \<noteq> []"
  proof
    assume "generated = []"
    with a have "drop (length (trim prefill) - n) (trim prefill) = []"
      by (simp add: trimStart_def)
    with a show False by auto
  qed
  with a ov assms show "stripPrefill generated prefill = trimStart (drop n (trimStart generated))"
    by (simp add: stripPrefill_def Let_def)
next
  assume a: "\<not> prefix (trim prefill) (trimStart generated) \<and>
          (\<forall>n. 0 < n \<and> n \<le> min (length (trim prefill)) 50 \<longrightarrow>
               \<not> prefix (drop (length (trim prefill) - n) (trim prefill)) (trimStart generated))"
  then have "prefill_overlap (trimStart generated) (trim prefill) (min (length (trim prefill)) 50) = None"
    by (simp add: prefill_overlap_None)
  with a show "stripPrefill generated prefill = generated"
    by (simp add: stripPrefill_def Let_def)
next
  show "stripPrefill (u ''the door creaked open and she stepped inside.'') (u ''the door creaked'')
           = u ''open and she stepped inside.''"
    by (simp add: stripPrefill_def u_def trim_def trimStart_def trimEnd_def is_space_def)
qed

text \<open>A partial overlap: the prefill ends in \<open>or\<close>, which the text starts with.\<close>

theorem stripPrefill_cases_witness:
  "u ''door'' \<noteq> [] \<and>
   \<not> prefix (trim (u ''door'')) (trimStart (u ''or open''))  \<and>
   prefix (drop (length (trim (u ''door'')) - 2) (trim (u ''door''))) (trimStart (u ''or open'')) \<and>
   stripPrefill (u ''or open'') (u ''door'') = u ''open'' \<and>
   stripPrefill (u ''door open'') (u ''door'') = u ''open'' \<and>
   stripPrefill (u ''It rained.'') (u ''door'') = u ''It rained.''"
proof -
  have tp: "trim (u ''door'') = u ''door''"
    by (simp add: u_def trim_def trimStart_def trimEnd_def is_space_def)
  have tg: "trimStart (u ''or open'') = u ''or open''"
       "trimStart (u ''door open'') = u ''door open''"
       "trimStart (u ''It rained.'') = u ''It rained.''"
    by (simp_all add: u_def trimStart_def is_space_def)
  have ne: "u ''door'' \<noteq> []" by (simp add: u_def)
  have np: "\<not> prefix (u ''door'') (u ''or open'')" by (simp add: u_def)
  have sf: "prefix (drop (length (u ''door'') - 2) (u ''door'')) (u ''or open'')"
    by (simp add: u_def)
  have len: "length (u ''door'') = 4" by (simp add: u_def)
  have longer: "\<forall>m. 2 < m \<and> m \<le> min (length (u ''door'')) 50 \<longrightarrow>
                 \<not> prefix (drop (length (u ''door'') - m) (u ''door'')) (u ''or open'')"
  proof (intro allI impI)
    fix m :: nat
    assume "2 < m \<and> m \<le> min (length (u ''door'')) 50"
    then have "m = 3 \<or> m = 4" using len by auto
    then show "\<not> prefix (drop (length (u ''door'') - m) (u ''door'')) (u ''or open'')"
      by (elim disjE) (simp_all add: u_def)
  qed
  have r1: "stripPrefill (u ''or open'') (u ''door'') = trimStart (drop 2 (u ''or open''))"
    using stripPrefill_cases [OF ne, of "u ''or open''", THEN conjunct2, THEN conjunct1, rule_format, of 2]
      np sf longer len by (simp add: tp tg)
  have r2: "stripPrefill (u ''door open'') (u ''door'') = trimStart (drop 4 (u ''door open''))"
    using stripPrefill_cases [OF ne, of "u ''door open''", THEN conjunct1]
    by (simp add: tp tg len) (simp add: u_def)
  have none: "\<forall>n. 0 < n \<and> n \<le> min (length (u ''door'')) 50 \<longrightarrow>
               \<not> prefix (drop (length (u ''door'') - n) (u ''door'')) (u ''It rained.'')"
  proof (intro allI impI)
    fix n :: nat
    assume "0 < n \<and> n \<le> min (length (u ''door'')) 50"
    then have "n = 1 \<or> n = 2 \<or> n = 3 \<or> n = 4" using len by auto
    then show "\<not> prefix (drop (length (u ''door'') - n) (u ''door'')) (u ''It rained.'')"
      by (elim disjE) (simp_all add: u_def)
  qed
  have r3: "stripPrefill (u ''It rained.'') (u ''door'') = u ''It rained.''"
    using stripPrefill_cases [OF ne, of "u ''It rained.''", THEN conjunct2, THEN conjunct2, THEN conjunct1]
      none by (simp add: tp tg) (simp add: u_def)
  have d1: "trimStart (drop 2 (u ''or open'')) = u ''open''"
    and d2: "trimStart (drop 4 (u ''door open'')) = u ''open''"
    by (simp_all add: u_def trimStart_def is_space_def)
  show ?thesis
    using ne np sf r1 r2 r3 by (simp add: tp tg d1 d2)
qed

section \<open>Properties of the non-streaming generation\<close>

lemma trim_Nil: "trim [] = []"
  by (simp add: trim_def trimStart_def trimEnd_def)

text \<open>
  Claim C8.  When the provider's answer carries no text, or a text that \<open>stripPrefill\<close>
  empties, the non-streaming path makes exactly one callback, \<open>onError\<close> with the
  \<open>EMPTY_RESPONSE\<close> error, and returns normally (\<open>Inr\<close>): \<open>onComplete\<close> is not called and no
  exception leaves the function.  The variant of js/gemini.js, which strips nothing, does
  the same for an answer without text.
\<close>

theorem empty_response_is_reported:
  "(t = None \<or> t = Some [] \<or> (\<exists>s. t = Some s \<and> stripPrefill s prefill = [])
      \<longrightarrow> generateWithoutStreaming (Response True st stt (Json m t)) prefill
            = Inr [OnError EMPTY_RESPONSE]) \<and>
   (t = None \<or> t = Some []
      \<longrightarrow> generateWithoutStreaming_plain (Response True st stt (Json m t))
            = Inr [OnError EMPTY_RESPONSE])"
  by (auto simp: generateWithoutStreaming_def try_generate_def generateWithoutStreaming_plain_def
        try_generate_plain_def catch_all_def or_else_def EMPTY_RESPONSE_def Let_def)

theorem empty_response_is_reported_witness:
  "stripPrefill (u ''the door creaked'') (u ''the door creaked'') = [] \<and>
   generateWithoutStreaming (Response True 200 (u ''OK'') (Json None (Some (u ''the door creaked''))))
       (u ''the door creaked'') = Inr [OnError EMPTY_RESPONSE] \<and>
   generateWithoutStreaming (Response True 200 (u ''OK'') (Json None None))
       (u ''the door creaked'') = Inr [OnError EMPTY_RESPONSE] \<and>
   generateWithoutStreaming_plain (Response True 200 (u ''OK'') (Json None (Some [])))
     = Inr [OnError EMPTY_RESPONSE]"
proof -
  have e: "stripPrefill (u ''the door creaked'') (u ''the door creaked'') = []"
    by (simp add: stripPrefill_def u_def trim_def trimStart_def trimEnd_def is_space_def)
  then have "\<exists>s. Some (u ''the door creaked'') = Some s \<and> stripPrefill s (u ''the door creaked'') = []"
    by simp
  then have a: "generateWithoutStreaming (Response True 200 (u ''OK'') (Json None (Some (u ''the door creaked''))))
       (u ''the door creaked'') = Inr [OnError EMPTY_RESPONSE]"
    by (intro empty_response_is_reported [THEN conjunct1, rule_format] disjI2)
  have b: "generateWithoutStreaming (Response True 200 (u ''OK'') (Json None None))
       (u ''the door creaked'') = Inr [OnError EMPTY_RESPONSE]"
    by (intro empty_response_is_reported [THEN conjunct1, rule_format] disjI1 refl)
  have c: "generateWithoutStreaming_plain (Response True 200 (u ''OK'') (Json None (Some [])))
     = Inr [OnError EMPTY_RESPONSE]"
    by (intro empty_response_is_reported [THEN conjunct2, rule_format] disjI2 refl)
  from e a b c show ?thesis by (intro conjI)
qed

text \<open>
  Claim C5.  The non-streaming path hands the stripped text to \<open>onComplete\<close> as it is:
  \<open>ensureProperEnding\<close> is defined in the module and called nowhere.  For the answer
  \<open>Hello, world\<close> the callback receives \<open>Hello, world\<close>, which ends on no sentence boundary;
  \<open>ensureProperEnding\<close> would have made it \<open>Hello, world.\<close>
\<close>

theorem completion_text_not_repaired:
  "generateWithoutStreaming (Response True 200 (u ''OK'') (Json None (Some (u ''Hello, world'')))) []
     = Inr [OnComplete (u ''Hello, world'')] \<and>
   ensureProperEnding (u ''Hello, world'') = u ''Hello, world.''"
  by (simp add: generateWithoutStreaming_def try_generate_def catch_all_def or_else_def
        stripPrefill_def ensureProperEnding_def truncate_at_sentence_def properEndings_def
        incompleteEndings_def lastIndexOf_def lastIndexOfFrom_def sentence_end_def quote_char_def
        suffix_def u_def trim_def trimStart_def trimEnd_def is_space_def Let_def)


section \<open>Evaluating the replacements\<close>

lemma replace_delimited_other:
  "c \<noteq> d \<Longrightarrow> replace_delimited d f (c # rest) = c # replace_delimited d f rest"
  by (simp add: replace_delimited.simps)

lemma replace_delimited_at:
  "replace_delimited d f (d # rest) =
     (if closed_run d rest
      then f (takeWhile (\<lambda>x. x \<noteq> d) rest) @ replace_delimited d f (tl (dropWhile (\<lambda>x. x \<noteq> d) rest))
      else d # replace_delimited d f rest)"
  by (simp add: replace_delimited.simps closed_run_def)

lemma closed_run_Nil: "\<not> closed_run d []"
  by (simp add: closed_run_def)

lemma closed_run_at: "\<not> closed_run d (d # rest)"
  by (simp add: closed_run_def)

lemma closed_run_other:
  "c \<noteq> d \<Longrightarrow> closed_run d (c # rest) \<longleftrightarrow> dropWhile (\<lambda>x. x \<noteq> d) rest \<noteq> []"
  by (simp add: closed_run_def)

lemma replace_thoughts_first:
  "replace_thoughts True (c # rest) =
     (if c = apos \<and> closed_run apos rest
      then thoughts_span (takeWhile (\<lambda>x. x \<noteq> apos) rest)
           @ replace_thoughts False (tl (dropWhile (\<lambda>x. x \<noteq> apos) rest))
      else replace_thoughts False (c # rest))"
  by (simp add: replace_thoughts.simps)

lemma replace_thoughts_other:
  "\<not> is_space c \<Longrightarrow> replace_thoughts False (c # rest) = c # replace_thoughts False rest"
  by (simp add: replace_thoughts.simps)

lemma replace_thoughts_space_last:
  "replace_thoughts False [c] = [c]"
  by (simp add: replace_thoughts.simps)

lemma replace_thoughts_space_other:
  "c' \<noteq> apos \<Longrightarrow> replace_thoughts False (c # c' # rest) = c # replace_thoughts False (c' # rest)"
  by (simp add: replace_thoughts.simps)

lemma replace_thoughts_space_apos:
  "is_space c \<Longrightarrow> c' = apos \<Longrightarrow> replace_thoughts False (c # c' # rest) =
     (if closed_run apos rest
      then c # thoughts_span (takeWhile (\<lambda>x. x \<noteq> apos) rest)
           @ replace_thoughts False (tl (dropWhile (\<lambda>x. x \<noteq> apos) rest))
      else c # replace_thoughts False (c' # rest))"
  by (simp add: replace_thoughts.simps)

lemmas replace_eval = replace_delimited_other replace_delimited_at closed_run_Nil closed_run_at
  closed_run_other replace_thoughts_first replace_thoughts_other replace_thoughts_space_last
  replace_thoughts_space_other replace_thoughts_space_apos

lemmas str_defs = u_def quot_def apos_def star_def newline_def
lemmas rt_defs = formattedHtml_def escapeHtml_def esc_char_def dialogue_span_def thoughts_span_def
  emphasis_span_def is_space_def

lemma split_pieces_other:
  "c \<noteq> newline \<Longrightarrow> split_pieces acc (c # rest) = split_pieces (c # acc) rest"
  by (simp add: split_pieces.simps)

lemma split_pieces_last: "split_pieces acc [c] = [rev (c # acc)]"
  by (simp add: split_pieces.simps)

lemma split_pieces_single:
  "c' \<noteq> newline \<Longrightarrow> split_pieces acc (c # c' # rest) = split_pieces (c # acc) (c' # rest)"
  by (simp add: split_pieces.simps)

lemma split_pieces_break:
  "c = newline \<Longrightarrow> c' = newline \<Longrightarrow>
   split_pieces acc (c # c' # rest) = rev acc # split_pieces [] (dropWhile (\<lambda>x. x = newline) rest)"
  by (simp add: split_pieces.simps)

lemma span_length_other: "c \<noteq> 60 \<Longrightarrow> span_length (c # rest) = None"
  by (simp add: span_length_def u_def)

lemma escape_remaining_other:
  "c \<noteq> 60 \<Longrightarrow> escape_remaining (c # rest)
     = escapeHtml_preview (c # takeWhile (\<lambda>x. x \<noteq> 60) rest)
       @ escape_remaining (dropWhile (\<lambda>x. x \<noteq> 60) rest)"
  by (simp add: escape_remaining.simps span_length_other)

lemma escape_remaining_tag:
  "c = 60 \<Longrightarrow> escape_remaining (c # rest)
     = (case span_length (c # rest) of
          Some n \<Rightarrow> take (Suc (n - 1)) (c # rest) @ escape_remaining (drop (n - 1) rest)
        | None \<Rightarrow> c # escape_remaining rest)"
  by (simp add: escape_remaining.simps split: option.splits)

lemmas preview_eval = split_pieces_other split_pieces_last split_pieces_single split_pieces_break
  escape_remaining_other escape_remaining_tag

lemmas pv_defs = formatText_def format_paragraph_def split_paragraphs_def escapeHtml_preview_def escape_map_def
  dialogue_span_preview_def thoughts_span_preview_def emphasis_span_preview_def span_length_def
  class_name_length_def line_terminator_def trim_def trimStart_def trimEnd_def is_space_def


lemma replace_between_other:
  "delim \<noteq> [] \<Longrightarrow> c \<noteq> hd delim \<Longrightarrow>
   replace_between delim f (c # rest) = c # replace_between delim f rest"
  by (cases delim) (simp_all add: replace_between.simps)

text \<open>
  Claim C4, on the sentence of the specification.  The real-time variant that looks for
  \<open>&#39;\<close> finds none, the escaping leaving quotes as they are, and returns the sentence
  without any span.  The preview formatter of js/formatter.js matches \<open>/'([^']+)'/g\<close>
  without the guard: it opens a thought span at the apostrophe of \<open>don't\<close>, which runs to the
  quote in front of \<open>Never\<close>, and leaves \<open>Never,'\<close> plain.
\<close>

theorem thought_span_in_other_variants:
  "formattedHtml_references (u ''He said don't go. 'Never,' she whispered.'')
     = u ''He said don't go. 'Never,' she whispered.'' \<and>
   formatText (u ''He said don't go. 'Never,' she whispered.'') default_colors
     = u ''<p>He said don<span class=\"thoughts\" style=\"color: #3498db\">'t go. '</span>Never,' she whispered.</p>''"
proof
  show "formattedHtml_references (u ''He said don't go. 'Never,' she whispered.'')
     = u ''He said don't go. 'Never,' she whispered.''"
    by (simp add: formattedHtml_references_def escapeHtml_def esc_char_def u_def star_def
          replace_between_other replace_delimited_other)
  show "formatText (u ''He said don't go. 'Never,' she whispered.'') default_colors
     = u ''<p>He said don<span class=\"thoughts\" style=\"color: #3498db\">'t go. '</span>Never,' she whispered.</p>''"
    by (simp add: pv_defs default_colors_def str_defs replace_eval preview_eval Let_def)
qed

text \<open>The real-time formatter with the guard, on the same sentence.\<close>

lemma realtime_thought_guarded:
  "formattedHtml (u ''He said don't go. 'Never,' she whispered.'')
     = u ''He said don't go. <span class=\"thoughts\">'Never,'</span> she whispered.''"
  by (simp add: rt_defs str_defs replace_eval)



section \<open>Paragraph breaks and the preview formatter\<close>

lemma has_break_Cons:
  "has_break (a # s) \<longleftrightarrow> (a = newline \<and> s \<noteq> [] \<and> hd s = newline) \<or> has_break s"
  by (cases s) auto

lemma has_break_append:
  "has_break (xs @ ys) \<longleftrightarrow>
     has_break xs \<or> has_break ys \<or> (xs \<noteq> [] \<and> ys \<noteq> [] \<and> last xs = newline \<and> hd ys = newline)"
proof (induction xs rule: has_break.induct)
  case (1 a b rest)
  then show ?case by auto
next
  case (2 a)
  show ?case by (auto simp: has_break_Cons)
next
  case 3
  show ?case by simp
qed

lemma no_break_parts:
  assumes "\<not> has_break s"
  shows "\<not> has_break (take n s)" "\<not> has_break (drop n s)"
    "\<not> (take n s \<noteq> [] \<and> drop n s \<noteq> [] \<and> last (take n s) = newline \<and> hd (drop n s) = newline)"
  using assms has_break_append [of "take n s" "drop n s"] by auto

lemma no_break_takeWhile: "\<not> has_break s \<Longrightarrow> \<not> has_break (takeWhile P s)"
proof -
  assume "\<not> has_break s"
  then have "\<not> has_break (takeWhile P s @ dropWhile P s)" by simp
  then show ?thesis unfolding has_break_append by blast
qed

lemma no_break_dropWhile: "\<not> has_break s \<Longrightarrow> \<not> has_break (dropWhile P s)"
proof -
  assume "\<not> has_break s"
  then have "\<not> has_break (takeWhile P s @ dropWhile P s)" by simp
  then show ?thesis unfolding has_break_append by blast
qed

lemma no_break_tl: "\<not> has_break s \<Longrightarrow> \<not> has_break (tl s)"
  using no_break_parts(2) [of s 1] by (simp add: drop_Suc)

subsection \<open>The pieces of \<open>split\<close>\<close>

lemma split_pieces_no_break:
  assumes "\<not> has_break (rev acc)" and "acc \<noteq> [] \<and> hd acc = newline \<longrightarrow> s = [] \<or> hd s \<noteq> newline"
  shows "\<forall>p \<in> set (split_pieces acc s). \<not> has_break p"
  using assms
proof (induction acc s rule: split_pieces.induct)
  case (1 acc)
  then show ?case by simp
next
  case (2 acc c rest)
  show ?case
  proof (cases "c = newline \<and> rest \<noteq> [] \<and> hd rest = newline")
    case True
    have "\<forall>p \<in> set (split_pieces [] (dropWhile (\<lambda>x. x = newline) rest)). \<not> has_break p"
      using "2.IH"(1) True by simp
    with True "2.prems"(1) show ?thesis by (simp add: split_pieces.simps)
  next
    case False
    have "\<not> has_break (rev (c # acc))"
      using "2.prems" by (auto simp: has_break_append last_rev)
    moreover have "c # acc \<noteq> [] \<and> hd (c # acc) = newline \<longrightarrow> rest = [] \<or> hd rest \<noteq> newline"
      using False by auto
    ultimately have "\<forall>p \<in> set (split_pieces (c # acc) rest). \<not> has_break p"
      using "2.IH"(2) False by blast
    moreover have "split_pieces acc (c # rest) = split_pieces (c # acc) rest"
      using False by (auto simp: split_pieces.simps)
    ultimately show ?thesis by simp
  qed
qed

lemma split_paragraphs_no_break: "\<forall>p \<in> set (split_paragraphs s). \<not> has_break p"
  unfolding split_paragraphs_def by (rule split_pieces_no_break) simp_all

subsection \<open>The replacements keep a text free of breaks\<close>

lemma replace_delimited_hd:
  assumes "\<And>content. f content \<noteq> [] \<and> hd (f content) \<noteq> newline"
  shows "replace_delimited d f s \<noteq> [] \<and> hd (replace_delimited d f s) = newline
         \<longrightarrow> s \<noteq> [] \<and> hd s = newline"
  using assms by (cases s) (auto simp: replace_delimited.simps)

lemma replace_delimited_no_break:
  "\<not> has_break s \<Longrightarrow>
   (\<And>content. \<not> has_break content \<Longrightarrow> \<not> has_break (f content)) \<Longrightarrow>
   (\<And>content. f content \<noteq> [] \<and> hd (f content) \<noteq> newline \<and> last (f content) \<noteq> newline) \<Longrightarrow>
   \<not> has_break (replace_delimited d f s)"
proof (induction d f s rule: replace_delimited.induct)
  case (1 d f)
  show ?case by simp
next
  case (2 d f c rest)
  have rest: "\<not> has_break rest"
    using "2.prems"(1) by (simp add: has_break_Cons)
  have hd_ok: "\<And>content. f content \<noteq> [] \<and> hd (f content) \<noteq> newline"
    using "2.prems"(3) by blast
  note hd_rule = replace_delimited_hd [of f, OF hd_ok]
  show ?case
  proof (cases "c = d \<and> takeWhile (\<lambda>x. x \<noteq> d) rest \<noteq> [] \<and> dropWhile (\<lambda>x. x \<noteq> d) rest \<noteq> []")
    case True
    have "\<not> has_break (f (takeWhile (\<lambda>x. x \<noteq> d) rest))"
      using rest by (intro "2.prems"(2) no_break_takeWhile)
    moreover have "\<not> has_break (replace_delimited d f (tl (dropWhile (\<lambda>x. x \<noteq> d) rest)))"
      using "2.IH"(1) True rest "2.prems" by (simp add: no_break_tl no_break_dropWhile)
    ultimately show ?thesis
      using True "2.prems"(3) by (simp add: replace_delimited.simps has_break_append)
  next
    case False
    have "\<not> has_break (replace_delimited d f rest)"
      using "2.IH"(2) False rest "2.prems" by simp
    moreover have "\<not> (c = newline \<and> replace_delimited d f rest \<noteq> []
                      \<and> hd (replace_delimited d f rest) = newline)"
      using hd_rule [of d rest] "2.prems"(1) by (auto simp: has_break_Cons)
    moreover have "replace_delimited d f (c # rest) = c # replace_delimited d f rest"
      using False by (auto simp: replace_delimited.simps)
    ultimately show ?thesis
      by (simp add: has_break_Cons)
  qed
qed


lemma escape_map_ends:
  "escape_map c \<noteq> []" "\<not> has_break (escape_map c)"
  "hd (escape_map c) = newline \<longleftrightarrow> c = newline"
  "last (escape_map c) = newline \<longleftrightarrow> c = newline"
  by (auto simp: escape_map_def u_def newline_def)

lemma escapeHtml_preview_Cons: "escapeHtml_preview (c # s) = escape_map c @ escapeHtml_preview s"
  by (simp add: escapeHtml_preview_def)

lemma escapeHtml_preview_Nil [simp]: "escapeHtml_preview [] = []" "escapeHtml_preview s = [] \<longleftrightarrow> s = []"
  by (auto simp: escapeHtml_preview_def escape_map_ends)

lemma escapeHtml_preview_hd:
  "s \<noteq> [] \<Longrightarrow> hd (escapeHtml_preview s) = newline \<longleftrightarrow> hd s = newline"
  by (cases s) (simp_all add: escapeHtml_preview_Cons escape_map_ends)

lemma escapeHtml_preview_last:
  "s \<noteq> [] \<Longrightarrow> last (escapeHtml_preview s) = newline \<longleftrightarrow> last s = newline"
proof (induction s)
  case Nil
  then show ?case by simp
next
  case (Cons c s)
  then show ?case
    by (cases "s = []") (simp_all add: escapeHtml_preview_Cons escape_map_ends)
qed

lemma escapeHtml_preview_no_break:
  "\<not> has_break s \<Longrightarrow> \<not> has_break (escapeHtml_preview s)"
proof (induction s)
  case Nil
  show ?case by simp
next
  case (Cons c s)
  then have "\<not> has_break (escapeHtml_preview s)"
    by (simp add: has_break_Cons)
  moreover have "\<not> (c = newline \<and> s \<noteq> [] \<and> hd s = newline)"
    using Cons.prems by (simp add: has_break_Cons)
  ultimately show ?case
    by (auto simp: escapeHtml_preview_Cons has_break_append escape_map_ends escapeHtml_preview_hd)
qed

lemma no_break_literal:
  "\<not> has_break (u ''<span class=\"dialogue\" style=\"color: '')"
  "\<not> has_break (u ''<span class=\"thoughts\" style=\"color: '')"
  "\<not> has_break (u ''<span class=\"emphasis\" style=\"color: '')"
  "\<not> has_break (u ''\">\"'')" "\<not> has_break (u ''\">'')" "\<not> has_break (u ''\"</span>'')"
  "\<not> has_break (u ''</span>'')" "\<not> has_break (u ''<p>'')" "\<not> has_break (u ''</p>'')"
  by (simp_all add: u_def newline_def)

lemma no_break_free: "newline \<notin> set s \<Longrightarrow> \<not> has_break s"
  by (induction s rule: has_break.induct) auto

lemma hd_last_free: "newline \<notin> set s \<Longrightarrow> s \<noteq> [] \<Longrightarrow> hd s \<noteq> newline \<and> last s \<noteq> newline"
  by (metis hd_in_set last_in_set)

lemma has_break_between:
  "has_break (a @ s @ b) \<longleftrightarrow> has_break s"
  if "newline \<notin> set a" "newline \<notin> set b"
proof -
  have "a \<noteq> [] \<Longrightarrow> last a \<noteq> newline" "b \<noteq> [] \<Longrightarrow> hd b \<noteq> newline"
    using that hd_last_free by blast+
  then show ?thesis
    using that by (auto simp: has_break_append no_break_free)
qed

lemma no_break_wrap:
  "newline \<notin> set a \<Longrightarrow> newline \<notin> set b \<Longrightarrow> \<not> has_break s \<Longrightarrow> \<not> has_break (a @ s @ b)"
  by (simp add: has_break_between)

lemma span_preview_no_break:
  assumes "newline \<notin> set (dialogueColor cs)" "newline \<notin> set (thoughtsColor cs)"
    "newline \<notin> set (emphasisColor cs)" "\<not> has_break content"
  shows "\<not> has_break (dialogue_span_preview cs content)"
    "\<not> has_break (thoughts_span_preview cs content)"
    "\<not> has_break (emphasis_span_preview cs content)"
proof -
  have e: "\<not> has_break (escapeHtml_preview content)"
    using assms(4) by (rule escapeHtml_preview_no_break)
  have d: "dialogue_span_preview cs content
      = (u ''<span class=\"dialogue\" style=\"color: '' @ dialogueColor cs @ u ''\">\"'')
        @ escapeHtml_preview content @ u ''\"</span>''"
    by (simp add: dialogue_span_preview_def)
  have d1: "newline \<notin> set (u ''<span class=\"dialogue\" style=\"color: '' @ dialogueColor cs @ u ''\">\"'')"
    using assms(1) by (simp add: u_def newline_def)
  have d2: "newline \<notin> set (u ''\"</span>'')" by (simp add: u_def newline_def)
  show "\<not> has_break (dialogue_span_preview cs content)"
    unfolding d by (rule no_break_wrap [OF d1 d2 e])
  have t: "thoughts_span_preview cs content
      = (u ''<span class=\"thoughts\" style=\"color: '' @ thoughtsColor cs @ u ''\">'' @ [apos])
        @ escapeHtml_preview content @ ([apos] @ u ''</span>'')"
    by (simp add: thoughts_span_preview_def)
  have t1: "newline \<notin> set (u ''<span class=\"thoughts\" style=\"color: '' @ thoughtsColor cs @ u ''\">'' @ [apos])"
    using assms(2) by (simp add: u_def newline_def apos_def)
  have t2: "newline \<notin> set ([apos] @ u ''</span>'')" by (simp add: u_def newline_def apos_def)
  show "\<not> has_break (thoughts_span_preview cs content)"
    unfolding t by (rule no_break_wrap [OF t1 t2 e])
  have m: "emphasis_span_preview cs content
      = (u ''<span class=\"emphasis\" style=\"color: '' @ emphasisColor cs @ u ''\">'')
        @ escapeHtml_preview content @ u ''</span>''"
    by (simp add: emphasis_span_preview_def)
  have m1: "newline \<notin> set (u ''<span class=\"emphasis\" style=\"color: '' @ emphasisColor cs @ u ''\">'')"
    using assms(3) by (simp add: u_def newline_def)
  have m2: "newline \<notin> set (u ''</span>'')" by (simp add: u_def newline_def)
  show "\<not> has_break (emphasis_span_preview cs content)"
    unfolding m by (rule no_break_wrap [OF m1 m2 e])
qed

lemma span_preview_ends:
  "dialogue_span_preview cs content \<noteq> [] \<and> hd (dialogue_span_preview cs content) \<noteq> newline
     \<and> last (dialogue_span_preview cs content) \<noteq> newline"
  "thoughts_span_preview cs content \<noteq> [] \<and> hd (thoughts_span_preview cs content) \<noteq> newline
     \<and> last (thoughts_span_preview cs content) \<noteq> newline"
  "emphasis_span_preview cs content \<noteq> [] \<and> hd (emphasis_span_preview cs content) \<noteq> newline
     \<and> last (emphasis_span_preview cs content) \<noteq> newline"
  by (simp_all add: dialogue_span_preview_def thoughts_span_preview_def emphasis_span_preview_def
        u_def newline_def)

subsection \<open>The last replacement\<close>

lemma escape_remaining_hd:
  "escape_remaining s \<noteq> [] \<and> hd (escape_remaining s) = newline \<longrightarrow> s \<noteq> [] \<and> hd s = newline"
proof (cases s)
  case Nil
  then show ?thesis by simp
next
  case (Cons c rest)
  show ?thesis
  proof (cases "span_length (c # rest)")
    case (Some n)
    then show ?thesis using Cons by (simp add: escape_remaining.simps)
  next
    case None
    then show ?thesis using Cons
      by (auto simp: escape_remaining.simps escapeHtml_preview_Cons escape_map_ends)
  qed
qed

lemma escape_remaining_no_break:
  "\<not> has_break s \<Longrightarrow> \<not> has_break (escape_remaining s)"
proof (induction s rule: escape_remaining.induct)
  case 1
  show ?case by simp
next
  case (2 c rest)
  show ?case
  proof (cases "span_length (c # rest)")
    case (Some n)
    let ?a = "take (Suc (n - 1)) (c # rest)" and ?b = "drop (Suc (n - 1)) (c # rest)"
    have b: "?b = drop (n - 1) rest" by simp
    have "\<not> has_break (drop (n - 1) rest)"
      using no_break_parts(2) [OF "2.prems", of "Suc (n - 1)"] by simp
    then have "\<not> has_break (escape_remaining (drop (n - 1) rest))"
      by (rule "2.IH"(3) [OF Some])
    then have "\<not> has_break (escape_remaining ?b)"
      by simp
    moreover have "\<not> has_break ?a"
      using "2.prems" by (rule no_break_parts(1))
    moreover have "\<not> (?a \<noteq> [] \<and> escape_remaining ?b \<noteq> [] \<and> last ?a = newline
                      \<and> hd (escape_remaining ?b) = newline)"
      using no_break_parts(3) [OF "2.prems", of "Suc (n - 1)"] escape_remaining_hd [of ?b]
      by blast
    ultimately have "\<not> has_break (?a @ escape_remaining ?b)"
      by (simp only: has_break_append) blast
    then show ?thesis
      using Some by (simp add: escape_remaining.simps)
  next
    case None
    show ?thesis
    proof (cases "c \<noteq> 60")
      case True
      let ?a = "c # takeWhile (\<lambda>x. x \<noteq> 60) rest" and ?b = "dropWhile (\<lambda>x. x \<noteq> 60) rest"
      have split: "c # rest = ?a @ ?b" by simp
      have parts: "\<not> has_break ?a" "\<not> has_break ?b"
        "\<not> (?b \<noteq> [] \<and> last ?a = newline \<and> hd ?b = newline)"
        using "2.prems" unfolding split has_break_append by blast+
      have "\<not> has_break (escape_remaining ?b)"
        using "2.IH"(1) [OF None True] parts(2) by simp
      moreover have "\<not> has_break (escapeHtml_preview ?a)"
        using parts(1) by (rule escapeHtml_preview_no_break)
      moreover have "\<not> (escape_remaining ?b \<noteq> [] \<and> last (escapeHtml_preview ?a) = newline
                      \<and> hd (escape_remaining ?b) = newline)"
        using parts(3) escape_remaining_hd [of ?b] escapeHtml_preview_last [of ?a] by auto
      ultimately have "\<not> has_break (escapeHtml_preview ?a @ escape_remaining ?b)"
        by (simp only: has_break_append) blast
      then show ?thesis
        using None True by (simp add: escape_remaining.simps)
    next
      case False
      have "\<not> has_break (escape_remaining rest)"
        using "2.IH"(2) [OF None False] "2.prems" by (simp add: has_break_Cons)
      then show ?thesis
        using None False by (simp add: escape_remaining.simps has_break_Cons newline_def)
    qed
  qed
qed

subsection \<open>Paragraphs and the whole text\<close>

lemma format_paragraph_no_break:
  assumes "newline \<notin> set (dialogueColor cs)" "newline \<notin> set (thoughtsColor cs)"
    "newline \<notin> set (emphasisColor cs)" "\<not> has_break p"
  shows "\<not> has_break (format_paragraph cs p)"
proof -
  note sp = span_preview_no_break [OF assms(1-3)]
  have 1: "\<not> has_break (replace_delimited quot (dialogue_span_preview cs) p)"
    by (rule replace_delimited_no_break [OF assms(4) sp(1) span_preview_ends(1)])
  have 2: "\<not> has_break (replace_delimited apos (thoughts_span_preview cs)
                 (replace_delimited quot (dialogue_span_preview cs) p))"
    by (rule replace_delimited_no_break [OF 1 sp(2) span_preview_ends(2)])
  have 3: "\<not> has_break (replace_delimited star (emphasis_span_preview cs)
                 (replace_delimited apos (thoughts_span_preview cs)
                   (replace_delimited quot (dialogue_span_preview cs) p)))"
    by (rule replace_delimited_no_break [OF 2 sp(3) span_preview_ends(3)])
  have "newline \<notin> set (u ''<p>'')" "newline \<notin> set (u ''</p>'')"
    by (simp_all add: u_def newline_def)
  then show ?thesis
    using escape_remaining_no_break [OF 3]
    by (simp add: format_paragraph_def Let_def has_break_between)
qed

lemma format_paragraph_ends:
  "format_paragraph cs p \<noteq> [] \<Longrightarrow>
     hd (format_paragraph cs p) \<noteq> newline \<and> last (format_paragraph cs p) \<noteq> newline"
  by (auto simp: format_paragraph_def Let_def u_def newline_def)

lemma concat_no_break:
  assumes "\<forall>x \<in> set xs. \<not> has_break x \<and> (x \<noteq> [] \<longrightarrow> hd x \<noteq> newline \<and> last x \<noteq> newline)"
  shows "\<not> has_break (concat xs)"
  using assms by (induction xs) (auto simp: has_break_append)


text \<open>
  When the colours hold no line feed, the markup that \<open>formatText\<close> returns holds no
  paragraph break.
\<close>

lemma formatText_no_break:
  assumes "newline \<notin> set (dialogueColor cs)" "newline \<notin> set (thoughtsColor cs)"
    "newline \<notin> set (emphasisColor cs)"
  shows "\<not> has_break (formatText text cs)"
proof -
  have "\<not> has_break (concat (map (format_paragraph cs) (split_paragraphs text)))"
  proof (rule concat_no_break, intro ballI conjI impI)
    fix x assume "x \<in> set (map (format_paragraph cs) (split_paragraphs text))"
    then obtain p where p: "p \<in> set (split_paragraphs text)" and x: "x = format_paragraph cs p"
      by auto
    from p have "\<not> has_break p" using split_paragraphs_no_break by blast
    then show "\<not> has_break x"
      unfolding x by (rule format_paragraph_no_break [OF assms])
    assume "x \<noteq> []"
    then show "hd x \<noteq> newline" "last x \<noteq> newline"
      unfolding x using format_paragraph_ends by blast+
  qed
  then show ?thesis
    by (simp add: formatText_def)
qed

subsection \<open>Paragraphs are formatted on their own\<close>

lemma replace_delimited_skip:
  "d \<notin> set a \<Longrightarrow> replace_delimited d f (a @ s) = a @ replace_delimited d f s"
  by (induction a) (simp_all add: replace_delimited.simps)

lemma replace_delimited_absent: "d \<notin> set s \<Longrightarrow> replace_delimited d f s = s"
  using replace_delimited_skip [of d s f "[]"] by simp











section \<open>Evaluating the editor\<close>

lemma tokenize_Nil: "tokenize [] = []"
  by (simp add: tokenize.simps)

lemma tokenize_plain: "c \<noteq> 38 \<Longrightarrow> c \<noteq> 60 \<Longrightarrow> tokenize (c # rest) = Chr c # tokenize rest"
  by (subst tokenize.simps) (simp add: u_def)

lemma tokenize_special:
  "c = 38 \<or> c = 60 \<Longrightarrow> tokenize (c # rest) =
     (if prefix (u ''&amp;'') (c # rest) then Chr 38 # tokenize (drop 4 rest)
      else if prefix (u ''&lt;'') (c # rest) then Chr 60 # tokenize (drop 3 rest)
      else if prefix (u ''&gt;'') (c # rest) then Chr 62 # tokenize (drop 3 rest)
      else if prefix (u ''&nbsp;'') (c # rest) then Chr 160 # tokenize (drop 5 rest)
      else if prefix (u ''<span class=\"'') (c # rest)
              \<and> prefix (u ''\">'') (dropWhile (\<lambda>x. x \<noteq> quot) (drop 12 rest))
           then Open (takeWhile (\<lambda>x. x \<noteq> quot) (drop 12 rest))
                # tokenize (drop 2 (dropWhile (\<lambda>x. x \<noteq> quot) (drop 12 rest)))
      else if prefix (u ''</span>'') (c # rest) then Close # tokenize (drop 6 rest)
      else Chr c # tokenize rest)"
  by (subst tokenize.simps) simp

lemmas dom_eval = tokenize_Nil tokenize_plain tokenize_special parse_html_def

lemmas ed_defs = applyRealtimeFormatting_def setPlainText_def set_textContent_def set_innerHTML_def
  replace_children_def restoreCursorPosition_def saveCursorPosition_def getPlainText_def element_text_def
  innerHTML_def setCursorOffset_def getCursorOffset_def chars_before_def editor_text_nodes_def
  initial_walk_def visit_text_def setStart_def setEnd_def onChunk_def onComplete_def start_session_def

text \<open>
  Claim C2.  The emphasis replacement writes the content of the run without its
  asterisks, and the text of the editor is read back from the rendered nodes: after
  \<open>applyRealtimeFormatting\<close> on an element whose text is \<open>*a*\<close>, \<open>getPlainText\<close> returns \<open>a\<close>.
\<close>

theorem emphasis_round_trip_loses_asterisks:
  "getPlainText \<lparr>children = [TextNode (u ''*a*'')], selection = None\<rparr> = u ''*a*'' \<and>
   applyRealtimeFormatting \<lparr>children = [TextNode (u ''*a*'')], selection = None\<rparr>
     = \<lparr>children = [Element (u ''emphasis'') [TextNode (u ''a'')]], selection = None\<rparr> \<and>
   getPlainText (applyRealtimeFormatting \<lparr>children = [TextNode (u ''*a*'')], selection = None\<rparr>)
     = u ''a''"
  by (simp add: ed_defs rt_defs str_defs replace_eval dom_eval Let_def)

text \<open>
  Claim C1.  The editor holds \<open>Hi end\<close> with the caret behind \<open>Hi\<close>, so the session keeps
  \<open>Hi\<close> and \<open> end\<close>.  The generated text is \<open>*b*\<close>.  After the callback for the chunk, and
  after the one for the completion, the text of the editor is \<open>Hib end\<close>, not \<open>Hi*b* end\<close>, and
  the caret is at offset 5, behind \<open>Hib e\<close>, two characters behind the generated \<open>b\<close>.
\<close>

theorem splice_loses_asterisks:
  "start_session \<lparr>children = [TextNode (u ''Hi end'')], selection = Some (InText 0 2, InText 0 2)\<rparr>
     = \<lparr>textBefore = u ''Hi'', textAfter = u '' end''\<rparr> \<and>
   getPlainText (onChunk \<lparr>textBefore = u ''Hi'', textAfter = u '' end''\<rparr> (u ''*b*'')
       \<lparr>children = [TextNode (u ''Hi end'')], selection = Some (InText 0 2, InText 0 2)\<rparr>)
     = u ''Hib end'' \<and>
   saveCursorPosition (onChunk \<lparr>textBefore = u ''Hi'', textAfter = u '' end''\<rparr> (u ''*b*'')
       \<lparr>children = [TextNode (u ''Hi end'')], selection = Some (InText 0 2, InText 0 2)\<rparr>)
     = Some \<lparr>pos_start = 5, pos_end = 5\<rparr> \<and>
   getPlainText (onComplete \<lparr>textBefore = u ''Hi'', textAfter = u '' end''\<rparr> (u ''*b*'')
       \<lparr>children = [TextNode (u ''Hi end'')], selection = Some (InText 0 2, InText 0 2)\<rparr>)
     = u ''Hib end''"
  by (simp add: ed_defs rt_defs str_defs replace_eval dom_eval Let_def)

text \<open>
  Claim C3.  The variant of \<open>restoreCursorPosition\<close> without \<open>safeStart\<close> and \<open>safeEnd\<close>, on
  the text \<open>ab\<close>: for the saved position \<open>{5, 5}\<close> no text node holds the offset, the range
  stays at the document's start, and the position saved next is \<open>{0, 0}\<close>, not \<open>{2, 2}\<close>; for
  \<open>{1, 5}\<close> only the start is found and the position saved next is \<open>{1, 1}\<close>, not \<open>{1, 2}\<close>.
\<close>

theorem unclamped_restore_loses_position:
  "restoreCursorPosition_unclamped \<lparr>children = [TextNode (u ''ab'')], selection = None\<rparr>
       (Some \<lparr>pos_start = 5, pos_end = 5\<rparr>)
     = \<lparr>children = [TextNode (u ''ab'')], selection = Some (DocumentStart, DocumentStart)\<rparr> \<and>
   saveCursorPosition (restoreCursorPosition_unclamped
       \<lparr>children = [TextNode (u ''ab'')], selection = None\<rparr> (Some \<lparr>pos_start = 5, pos_end = 5\<rparr>))
     = Some \<lparr>pos_start = 0, pos_end = 0\<rparr> \<and>
   saveCursorPosition (restoreCursorPosition_unclamped
       \<lparr>children = [TextNode (u ''ab'')], selection = None\<rparr> (Some \<lparr>pos_start = 1, pos_end = 5\<rparr>))
     = Some \<lparr>pos_start = 1, pos_end = 1\<rparr>"
  by (simp add: ed_defs restoreCursorPosition_unclamped_def str_defs Let_def)


section \<open>Restoring and saving the caret\<close>

lemma concat_text_nodes:
  "(\<And>n. n \<in> set ns \<Longrightarrow> concat (text_nodes n) = textContent n) \<Longrightarrow>
   concat (concat (map text_nodes ns)) = concat (map textContent ns)"
  by (induction ns) simp_all

lemma textContent_text_nodes: "concat (text_nodes n) = textContent n"
proof (induction n)
  case (TextNode s)
  show ?case by simp
next
  case (Element cls ns)
  then show ?case by (simp add: concat_text_nodes)
qed

lemma element_text_nodes: "concat (editor_text_nodes ed) = element_text ed"
  unfolding editor_text_nodes_def element_text_def
  by (rule concat_text_nodes) (rule textContent_text_nodes)

lemma walk_texts_stop: "stop w \<Longrightarrow> walk_texts b s e ts w = w"
  by (cases ts) simp_all

lemma walk_nodes_texts:
  "walk_nodes b s e ns w = walk_texts b s e (concat (map text_nodes ns)) w"
proof (induction b s e ns w rule: walk_nodes.induct)
  case (1 b s e w)
  show ?case by simp
next
  case (2 b s e t nodeStack w)
  then show ?case by simp
next
  case (3 b s e cls childNodes nodeStack w)
  then show ?case by (simp add: walk_texts_stop)
qed

lemma walk_found:
  "foundStart w \<Longrightarrow> \<not> stop w \<Longrightarrow> range_of w = (InText i a, InText i a) \<Longrightarrow> i < textIndex w \<Longrightarrow>
   range_of (walk_texts b s e ts w)
     = (case locate ts (textIndex w) (charIndex w) e of
          Some q \<Rightarrow> (InText i a, q)
        | None \<Rightarrow> (InText i a, InText i a))"
proof (induction ts arbitrary: w)
  case Nil
  then show ?case by simp
next
  case (Cons t ts)
  let ?c = "charIndex w" and ?k = "textIndex w"
  have step: "walk_texts b s e (t # ts) w = walk_texts b s e ts (visit_text b s e t w)"
    using Cons.prems by simp
  show ?case
  proof (cases "?c \<le> e \<and> e \<le> ?c + length t")
    case True
    then have "stop (visit_text b s e t w)"
      and "range_of (visit_text b s e t w) = (InText i a, InText ?k (e - ?c))"
      using Cons.prems by (auto simp: visit_text_def Let_def setEnd_def)
    then show ?thesis
      using True unfolding step by (simp add: walk_texts_stop)
  next
    case False
    then have v: "visit_text b s e t w = w\<lparr>charIndex := ?c + length t, textIndex := ?k + 1\<rparr>"
      using Cons.prems by (auto simp: visit_text_def Let_def)
    have l: "locate (t # ts) ?k ?c e = locate ts (Suc ?k) (?c + length t) e"
      using False by auto
    have "range_of (walk_texts b s e ts (visit_text b s e t w))
        = (case locate ts (Suc ?k) (?c + length t) e of
             Some q \<Rightarrow> (InText i a, q) | None \<Rightarrow> (InText i a, InText i a))"
      using Cons.prems Cons.IH [of "visit_text b s e t w"] by (simp add: v)
    then show ?thesis
      unfolding step l .
  qed
qed

lemma walk_search:
  "\<not> foundStart w \<Longrightarrow> \<not> stop w \<Longrightarrow> range_of w = (DocumentStart, DocumentStart) \<Longrightarrow>
   charIndex w \<le> s \<Longrightarrow> s \<le> e \<Longrightarrow>
   range_of (walk_texts b s e ts w)
     = (case locate ts (textIndex w) (charIndex w) s of
          None \<Rightarrow> (DocumentStart, DocumentStart)
        | Some p \<Rightarrow> (case locate ts (textIndex w) (charIndex w) e of
                      Some q \<Rightarrow> (p, q)
                    | None \<Rightarrow> (p, p)))"
proof (induction ts arbitrary: w)
  case Nil
  then show ?case by simp
next
  case (Cons t ts)
  let ?c = "charIndex w" and ?k = "textIndex w"
  have step: "walk_texts b s e (t # ts) w = walk_texts b s e ts (visit_text b s e t w)"
    using Cons.prems by simp
  show ?case
  proof (cases "s \<le> ?c + length t")
    case inside: True
    have ls: "locate (t # ts) ?k ?c s = Some (InText ?k (s - ?c))"
      using inside Cons.prems by simp
    show ?thesis
    proof (cases "e \<le> ?c + length t")
      case True
      then have "stop (visit_text b s e t w)"
        and "range_of (visit_text b s e t w) = (InText ?k (s - ?c), InText ?k (e - ?c))"
        using Cons.prems inside by (auto simp: visit_text_def Let_def setStart_def setEnd_def)
      then show ?thesis
        using True inside Cons.prems unfolding step by (simp add: walk_texts_stop)
    next
      case False
      then have v: "visit_text b s e t w
          = w\<lparr>range_of := (InText ?k (s - ?c), InText ?k (s - ?c)), foundStart := True,
               charIndex := ?c + length t, textIndex := ?k + 1\<rparr>"
        using Cons.prems inside by (auto simp: visit_text_def Let_def setStart_def)
      have le: "locate (t # ts) ?k ?c e = locate ts (Suc ?k) (?c + length t) e"
        using False by auto
      have "range_of (walk_texts b s e ts (visit_text b s e t w))
          = (case locate ts (Suc ?k) (?c + length t) e of
               Some q \<Rightarrow> (InText ?k (s - ?c), q)
             | None \<Rightarrow> (InText ?k (s - ?c), InText ?k (s - ?c)))"
        using Cons.prems walk_found [of "visit_text b s e t w" ?k "s - ?c" b s e ts] by (simp add: v)
      then show ?thesis
        unfolding step ls le by simp
    qed
  next
    case False
    then have v: "visit_text b s e t w = w\<lparr>charIndex := ?c + length t, textIndex := ?k + 1\<rparr>"
      using Cons.prems by (auto simp: visit_text_def Let_def)
    have ls: "locate (t # ts) ?k ?c s = locate ts (Suc ?k) (?c + length t) s"
      and le: "locate (t # ts) ?k ?c e = locate ts (Suc ?k) (?c + length t) e"
      using False Cons.prems by auto
    have "range_of (walk_texts b s e ts (visit_text b s e t w))
        = (case locate ts (Suc ?k) (?c + length t) s of
             None \<Rightarrow> (DocumentStart, DocumentStart)
           | Some p \<Rightarrow> (case locate ts (Suc ?k) (?c + length t) e of
                         Some q \<Rightarrow> (p, q) | None \<Rightarrow> (p, p)))"
      using Cons.prems False Cons.IH [of "visit_text b s e t w"]
      by (simp add: v split: option.splits)
    then show ?thesis
      unfolding step ls le .
  qed
qed

lemma locate_Some:
  "locate ts k c x = Some p \<Longrightarrow>
   \<exists>i a. p = InText i a \<and> k \<le> i \<and> i < k + length ts \<and> a \<le> length (ts ! (i - k))
         \<and> c + length (concat (take (i - k) ts)) + a = x"
proof (induction ts arbitrary: k c)
  case Nil
  then show ?case by simp
next
  case (Cons t ts)
  show ?case
  proof (cases "c \<le> x \<and> x \<le> c + length t")
    case True
    with Cons.prems show ?thesis by auto
  next
    case False
    with Cons.prems have "locate ts (Suc k) (c + length t) x = Some p" by simp
    from Cons.IH [OF this] obtain i a where
      "p = InText i a" "Suc k \<le> i" "i < Suc k + length ts" "a \<le> length (ts ! (i - Suc k))"
      "c + length t + length (concat (take (i - Suc k) ts)) + a = x"
      by auto
    moreover from \<open>Suc k \<le> i\<close> have "i - k = Suc (i - Suc k)" by simp
    ultimately show ?thesis by auto
  qed
qed

lemma locate_exists:
  "c \<le> x \<Longrightarrow> x \<le> c + length (concat ts) \<Longrightarrow> ts \<noteq> [] \<Longrightarrow> locate ts k c x \<noteq> None"
proof (induction ts arbitrary: k c)
  case Nil
  then show ?case by simp
next
  case (Cons t ts)
  show ?case
  proof (cases "x \<le> c + length t")
    case True
    with Cons.prems show ?thesis by simp
  next
    case False
    with Cons.prems have "ts \<noteq> []" by auto
    with Cons.prems False show ?thesis
      using Cons.IH [of "c + length t" "Suc k"] by simp
  qed
qed

lemma chars_before_locate:
  assumes "locate (editor_text_nodes ed) 0 0 x = Some p"
  shows "chars_before ed p = x"
  using locate_Some [OF assms] by (auto simp: chars_before_def)

text \<open>
  The variant with \<open>safeStart\<close> and \<open>safeEnd\<close>: restoring a saved position and saving
  again yields the saved offsets clamped to the length of the text.
\<close>

lemma restore_then_save:
  assumes "pos_start saved \<le> pos_end saved"
  shows "saveCursorPosition (restoreCursorPosition ed (Some saved))
           = Some \<lparr>pos_start = min (pos_start saved) (length (element_text ed)),
                   pos_end = min (pos_end saved) (length (element_text ed))\<rparr>"
proof -
  let ?T = "length (element_text ed)"
  let ?s = "min (pos_start saved) ?T" and ?e = "min (pos_end saved) ?T"
  let ?ts = "editor_text_nodes ed"
  let ?ed' = "restoreCursorPosition ed (Some saved)"
  have T: "length (concat ?ts) = ?T" by (simp add: element_text_nodes)
  have se: "?s \<le> ?e" using assms by auto
  have r: "selection ?ed' = Some (range_of (walk_texts True ?s ?e ?ts initial_walk))"
    by (simp add: restoreCursorPosition_def Let_def walk_nodes_texts editor_text_nodes_def)
  have same: "editor_text_nodes ?ed' = ?ts"
    by (simp add: restoreCursorPosition_def Let_def editor_text_nodes_def)
  have cb: "chars_before ?ed' p = chars_before ed p" for p
    by (cases p) (simp_all add: chars_before_def same)
  have w: "range_of (walk_texts True ?s ?e ?ts initial_walk)
      = (case locate ?ts 0 0 ?s of
           None \<Rightarrow> (DocumentStart, DocumentStart)
         | Some p \<Rightarrow> (case locate ?ts 0 0 ?e of Some q \<Rightarrow> (p, q) | None \<Rightarrow> (p, p)))"
    using walk_search [of initial_walk ?s ?e True ?ts] se
    by (simp add: initial_walk_def split: option.splits)
  show ?thesis
  proof (cases "?ts = []")
    case True
    with T have "?T = 0" by simp
    with True w r show ?thesis
      by (simp add: saveCursorPosition_def cb chars_before_def)
  next
    case False
    have "locate ?ts 0 0 ?s \<noteq> None" "locate ?ts 0 0 ?e \<noteq> None"
      using False T by (intro locate_exists; simp)+
    then obtain p q where p: "locate ?ts 0 0 ?s = Some p" and q: "locate ?ts 0 0 ?e = Some q"
      by auto
    have "chars_before ed p = ?s"
      using p by (rule chars_before_locate)
    moreover have "chars_before ed q = ?e"
      using q by (rule chars_before_locate)
    ultimately have "chars_before ed p = ?s" "chars_before ed q = ?e" .
    with w r p q se show ?thesis
      by (simp add: saveCursorPosition_def cb)
  qed
qed


lemma prefix_sum_within:
  assumes "i < length ts" "x \<le> length (ts ! i)"
  shows "length (concat (take i ts)) + x \<le> length (concat (take (Suc i) ts))"
  using assms by (simp add: take_Suc_conv_app_nth)

lemma prefix_sum_mono:
  "i \<le> j \<Longrightarrow> length (concat (take i ts)) \<le> length (concat (take j (ts :: jstring list)))"
proof -
  assume "i \<le> j"
  then have "take j ts = take i ts @ take (j - i) (drop i ts)"
    by (metis le_add_diff_inverse take_add)
  then show ?thesis by simp
qed

text \<open>
  For a selection whose ends lie in text nodes, saving, restoring and saving again
  yields the offsets saved first: the restored selection covers the same text.
\<close>

lemma save_restore_save:
  assumes sel: "selection ed = Some (InText i x, InText j y)"
    and valid: "i < length (editor_text_nodes ed)" "x \<le> length (editor_text_nodes ed ! i)"
      "j < length (editor_text_nodes ed)" "y \<le> length (editor_text_nodes ed ! j)"
    and ordered: "\<not> point_less (InText j y) (InText i x)"
  shows "saveCursorPosition (restoreCursorPosition ed (saveCursorPosition ed)) = saveCursorPosition ed"
proof -
  let ?ts = "editor_text_nodes ed"
  let ?s = "chars_before ed (InText i x)" and ?e = "chars_before ed (InText j y)"
  have T: "length (concat ?ts) = length (element_text ed)" by (simp add: element_text_nodes)
  have whole: "length (concat (take k ?ts)) \<le> length (concat ?ts)" for k
    using prefix_sum_mono [of k "length ?ts" ?ts] by (cases "k \<le> length ?ts") simp_all
  have s_le: "?s \<le> length (element_text ed)"
    using prefix_sum_within [OF valid(1,2)] whole [of "Suc i"] T by (simp add: chars_before_def)
  have e_le: "?e \<le> length (element_text ed)"
    using prefix_sum_within [OF valid(3,4)] whole [of "Suc j"] T by (simp add: chars_before_def)
  have se: "?s \<le> ?e"
  proof (cases "i = j")
    case True
    with ordered show ?thesis by (simp add: chars_before_def)
  next
    case False
    with ordered have "Suc i \<le> j" by auto
    then have "length (concat (take (Suc i) ?ts)) \<le> length (concat (take j ?ts))"
      by (rule prefix_sum_mono)
    with prefix_sum_within [OF valid(1,2)] show ?thesis by (simp add: chars_before_def)
  qed
  have saved: "saveCursorPosition ed = Some \<lparr>pos_start = ?s, pos_end = ?e\<rparr>"
    using se by (simp add: saveCursorPosition_def sel)
  show ?thesis
    unfolding saved using restore_then_save [of "\<lparr>pos_start = ?s, pos_end = ?e\<rparr>" ed] se s_le e_le
    by (simp add: min_absorb1)
qed

section \<open>What the parser reads back\<close>

lemma render_Nil [simp]: "render [] = []"
  by (simp add: render_def)

lemma render_Cons [simp]: "render (t # ts) = render_token t @ render ts"
  by (simp add: render_def)

lemma render_append [simp]: "render (ts @ ts') = render ts @ render ts'"
  by (simp add: render_def)

lemma token_chars_append [simp]: "token_chars (ts @ ts') = token_chars ts @ token_chars ts'"
  by (induction ts rule: token_chars.induct) simp_all

lemma token_chars_map_Chr [simp]: "token_chars (map Chr s) = s"
  by (induction s) simp_all

lemma render_map_Chr: "render (map Chr s) = escapeHtml s"
  by (induction s) (simp_all add: escapeHtml_def)

lemma tokenize_render_token:
  "plain_class t \<Longrightarrow> tokenize (render_token t @ rest) = t # tokenize rest"
proof (cases t)
  case (Chr c)
  consider "c = 38" | "c = 60" | "c = 62" | "c = 160" | "c \<noteq> 38" "c \<noteq> 60" "c \<noteq> 62" "c \<noteq> 160"
    by blast
  then show ?thesis
  proof cases
    case 1
    then show ?thesis using Chr by (subst tokenize.simps) (simp add: esc_char_def u_def)
  next
    case 2
    then show ?thesis using Chr by (subst tokenize.simps) (simp add: esc_char_def u_def)
  next
    case 3
    then show ?thesis using Chr by (subst tokenize.simps) (simp add: esc_char_def u_def)
  next
    case 4
    then show ?thesis using Chr by (subst tokenize.simps) (simp add: esc_char_def u_def)
  next
    case 5
    then show ?thesis using Chr by (subst tokenize.simps) (simp add: esc_char_def u_def)
  qed
next
  case (Open cls)
  assume "plain_class t"
  then have q: "quot \<notin> set cls" using Open by simp
  have tw: "takeWhile (\<lambda>x. x \<noteq> quot) (cls @ 34 # 62 # rest) = cls"
    using q by (simp add: takeWhile_append quot_def)
  have dw: "dropWhile (\<lambda>x. x \<noteq> quot) (cls @ 34 # 62 # rest) = 34 # 62 # rest"
    using q by (simp add: dropWhile_append quot_def)
  show ?thesis
    unfolding Open render_token.simps
    by (subst tokenize.simps) (simp add: u_def tw dw)
next
  case Close
  then show ?thesis by (subst tokenize.simps) (simp add: u_def)
qed

lemma tokenize_render:
  "\<forall>t \<in> set ts. plain_class t \<Longrightarrow> tokenize (render ts @ rest) = ts @ tokenize rest"
  by (induction ts) (simp_all add: tokenize_render_token)

subsection \<open>The text of the tree\<close>

lemma nodes_text_simps [simp]:
  "nodes_text [] = []" "nodes_text (n # ns) = textContent n @ nodes_text ns"
  "nodes_text (ns @ ms) = nodes_text ns @ nodes_text ms"
  by (simp_all add: nodes_text_def)

lemma nodes_text_add_char: "nodes_text (rev (add_char c cur)) = nodes_text (rev cur) @ [c]"
  by (induction c cur rule: add_char.induct) simp_all

lemma nodes_text_close_all:
  "nodes_text (close_all stack cur) = open_text stack @ nodes_text (rev cur)"
  by (induction stack cur rule: close_all.induct) (simp_all add: nodes_text_def)

lemma nodes_text_build:
  "nodes_text (build ts stack cur)
     = open_text stack @ nodes_text (rev cur) @ filter (\<lambda>c. c \<noteq> 0) (token_chars ts)"
proof (induction ts stack cur rule: build.induct)
  case (1 stack cur)
  show ?case by (simp add: nodes_text_close_all)
next
  case (2 c ts stack cur)
  then show ?case by (simp add: nodes_text_add_char)
next
  case (3 cls ts stack cur)
  then show ?case by simp
next
  case (4 ts cur)
  then show ?case by simp
next
  case (5 ts cls parent stack cur)
  then show ?case by (simp add: nodes_text_def)
qed

lemma normalize_newlines_plain: "13 \<notin> set s \<Longrightarrow> normalize_newlines s = s"
  by (induction s rule: normalize_newlines.induct) auto

lemma parse_render:
  "\<forall>t \<in> set ts. plain_class t \<Longrightarrow> 13 \<notin> set (render ts) \<Longrightarrow>
     nodes_text (parse_html (render ts)) = filter (\<lambda>c. c \<noteq> 0) (token_chars ts)"
  using tokenize_render [of ts "[]"]
  by (simp add: parse_html_def nodes_text_build tokenize_Nil normalize_newlines_plain)

section \<open>What the formatter writes\<close>

lemma transparent_Cons:
  "transparent d (t # ts) \<longleftrightarrow> (t \<noteq> Chr d \<longrightarrow> d \<notin> set (render_token t)) \<and> transparent d ts"
  by (auto simp: transparent_def)

lemma takeWhile_render:
  assumes "transparent d ts" "esc_char d = [d]"
  shows "takeWhile (\<lambda>x. x \<noteq> d) (render ts) = render (takeWhile (\<lambda>t. t \<noteq> Chr d) ts)"
    and "dropWhile (\<lambda>x. x \<noteq> d) (render ts) = render (dropWhile (\<lambda>t. t \<noteq> Chr d) ts)"
  using assms
proof (induction ts)
  case Nil
  case 1 show ?case by simp
  case 2 show ?case by simp
next
  case (Cons t ts)
  case 1
  show ?case
    using Cons 1 by (cases "t = Chr d") (auto simp: transparent_Cons takeWhile_append)
  case 2
  show ?case
    using Cons 2 by (cases "t = Chr d") (auto simp: transparent_Cons dropWhile_append)
qed

lemma render_eq_Nil [simp]: "render ts = [] \<longleftrightarrow> ts = []"
proof (cases ts)
  case Nil
  then show ?thesis by simp
next
  case (Cons t ts')
  have "render_token t \<noteq> []"
    by (cases t) (auto simp: esc_char_def u_def)
  then show ?thesis using Cons by simp
qed

lemma esc_delims [simp]: "esc_char quot = [quot]" "esc_char apos = [apos]" "esc_char star = [star]"
  by (simp_all add: esc_char_def quot_def apos_def star_def)

lemma transparent_quot_chars: "transparent quot (map Chr s)"
  by (auto simp: transparent_def esc_char_def u_def quot_def)

lemma transparent_plain:
  "\<forall>t \<in> set ts. plain_class t \<Longrightarrow> transparent apos ts \<and> transparent star ts"
proof -
  assume p: "\<forall>t \<in> set ts. plain_class t"
  show ?thesis
    unfolding transparent_def
  proof (intro conjI ballI impI)
    fix t assume "t \<in> set ts" "t \<noteq> Chr apos"
    with p show "apos \<notin> set (render_token t)"
      by (cases t) (auto simp: esc_char_def u_def apos_def)
  next
    fix t assume "t \<in> set ts" "t \<noteq> Chr star"
    with p show "star \<notin> set (render_token t)"
      by (cases t) (auto simp: esc_char_def u_def star_def)
  qed
qed

lemma transparent_cr: "\<forall>t \<in> set ts. plain_class t \<Longrightarrow> transparent 13 ts"
proof -
  assume p: "\<forall>t \<in> set ts. plain_class t"
  show ?thesis
    unfolding transparent_def
  proof (intro ballI impI)
    fix t assume "t \<in> set ts" "t \<noteq> Chr 13"
    with p show "13 \<notin> set (render_token t)"
      by (cases t) (auto simp: esc_char_def u_def)
  qed
qed

subsection \<open>The dialogue replacement\<close>

lemma dialogue_tokens:
  "\<exists>ts. replace_delimited quot dialogue_span (escapeHtml s) = render ts
        \<and> token_chars ts = s \<and> (\<forall>t \<in> set ts. plain_class t)"
proof (induction s rule: length_induct)
  case (1 s)
  show ?case
  proof (cases s)
    case Nil
    then show ?thesis by (auto simp: escapeHtml_def intro: exI [of _ "[]"])
  next
    case (Cons c rest)
    let ?content = "takeWhile (\<lambda>x. x \<noteq> quot) rest" and ?after = "dropWhile (\<lambda>x. x \<noteq> quot) rest"
    have m: "takeWhile (\<lambda>t. t \<noteq> Chr quot) (map Chr rest) = map Chr ?content"
      "dropWhile (\<lambda>t. t \<noteq> Chr quot) (map Chr rest) = map Chr ?after"
      by (simp_all add: takeWhile_map dropWhile_map comp_def)
    have tw: "takeWhile (\<lambda>x. x \<noteq> quot) (escapeHtml rest) = escapeHtml ?content"
      and dw: "dropWhile (\<lambda>x. x \<noteq> quot) (escapeHtml rest) = escapeHtml ?after"
      using takeWhile_render [of quot "map Chr rest", OF transparent_quot_chars esc_delims(1)]
      unfolding m render_map_Chr by blast+
    have esc_Nil: "escapeHtml x = [] \<longleftrightarrow> x = []" for x
      using render_eq_Nil [of "map Chr x"] by (simp add: render_map_Chr)
    show ?thesis
    proof (cases "c = quot \<and> ?content \<noteq> [] \<and> ?after \<noteq> []")
      case True
      then obtain r where after: "?after = quot # r"
        using hd_dropWhile [of "\<lambda>x. x \<noteq> quot" rest] by (cases ?after) auto
      have "rest = ?content @ ?after" by simp
      then have rest_eq: "rest = ?content @ quot # r"
        unfolding after .
      have "length rest = length ?content + Suc (length r)"
        using arg_cong [OF rest_eq, of length] by simp
      then have "length r < length s" using Cons by simp
      with 1 obtain ts where ts: "replace_delimited quot dialogue_span (escapeHtml r) = render ts"
        "token_chars ts = r" "\<forall>t \<in> set ts. plain_class t"
        by blast
      let ?ts = "[Open (u ''dialogue''), Chr quot] @ map Chr ?content @ [Chr quot, Close] @ ts"
      have e: "escapeHtml (quot # x) = quot # escapeHtml x" for x
        by (simp add: escapeHtml_def)
      have "replace_delimited quot dialogue_span (escapeHtml s)
          = dialogue_span (escapeHtml ?content) @ replace_delimited quot dialogue_span (escapeHtml r)"
        using True Cons
        by (simp add: e replace_delimited.simps tw dw esc_Nil after)
      also have "\<dots> = render ?ts"
        by (simp add: ts dialogue_span_def render_map_Chr) (simp add: u_def quot_def)
      finally have "replace_delimited quot dialogue_span (escapeHtml s) = render ?ts" .
      moreover have "token_chars ?ts = s"
        using True Cons rest_eq ts by simp
      moreover have "\<forall>t \<in> set ?ts. plain_class t"
        using ts by (auto simp: u_def quot_def apos_def star_def)
      ultimately show ?thesis by blast
    next
      case False
      have "length rest < length s" using Cons by simp
      with 1 obtain ts where ts: "replace_delimited quot dialogue_span (escapeHtml rest) = render ts"
        "token_chars ts = rest" "\<forall>t \<in> set ts. plain_class t"
        by blast
      have "replace_delimited quot dialogue_span (escapeHtml s) = render (Chr c # ts)"
      proof (cases "c = quot")
        case True
        with False have "\<not> (takeWhile (\<lambda>x. x \<noteq> quot) (escapeHtml rest) \<noteq> []
                            \<and> dropWhile (\<lambda>x. x \<noteq> quot) (escapeHtml rest) \<noteq> [])"
          by (simp add: tw dw esc_Nil)
        then show ?thesis
          using True Cons ts by (auto simp: escapeHtml_def replace_delimited.simps)
      next
        case c: False
        then have "quot \<notin> set (esc_char c)"
          by (auto simp: esc_char_def u_def quot_def)
        then have "replace_delimited quot dialogue_span (esc_char c @ escapeHtml rest)
            = esc_char c @ replace_delimited quot dialogue_span (escapeHtml rest)"
          by (rule replace_delimited_skip)
        then show ?thesis
          using Cons ts by (simp add: escapeHtml_def)
      qed
      then show ?thesis
        using ts Cons by (intro exI [of _ "Chr c # ts"]) simp
    qed
  qed
qed

subsection \<open>The thought replacement\<close>

lemma replace_thoughts_skip:
  "apos \<notin> set a \<Longrightarrow> a \<noteq> [] \<Longrightarrow> \<not> is_space (last a) \<Longrightarrow>
   replace_thoughts b (a @ s) = a @ replace_thoughts False s"
proof (induction a arbitrary: b)
  case Nil
  then show ?case by simp
next
  case (Cons x a)
  show ?case
  proof (cases a)
    case Nil
    with Cons.prems show ?thesis by (simp add: replace_thoughts.simps)
  next
    case (Cons y a')
    with Cons.prems have "replace_thoughts b ((x # a) @ s) = x # replace_thoughts False (a @ s)"
      by (simp add: replace_thoughts.simps)
    moreover have "replace_thoughts False (a @ s) = a @ replace_thoughts False s"
      using Cons.prems Cons by (intro Cons.IH) auto
    ultimately show ?thesis by simp
  qed
qed

lemma hd_render_apos:
  assumes "\<forall>t \<in> set ts. plain_class t" "ts \<noteq> []" "hd (render ts) = apos"
  shows "\<exists>r. ts = Chr apos # r"
proof (cases ts)
  case Nil
  with assms show ?thesis by simp
next
  case (Cons t r)
  have ne: "render_token t \<noteq> []" by (cases t) (auto simp: esc_char_def u_def)
  then have "hd (render_token t) = apos" using assms(3) Cons by simp
  then have "t = Chr apos"
    by (cases t) (auto simp: esc_char_def u_def apos_def split: if_splits)
  then show ?thesis using Cons by simp
qed

text \<open>The tokens of a closed run behind an opening single quote.\<close>

lemma closed_run_tokens:
  assumes "\<forall>t \<in> set ts. plain_class t" "closed_run apos (render ts)"
  obtains content r where "ts = content @ Chr apos # r" "content \<noteq> []"
    "takeWhile (\<lambda>x. x \<noteq> apos) (render ts) = render content"
    "tl (dropWhile (\<lambda>x. x \<noteq> apos) (render ts)) = render r"
proof -
  let ?content = "takeWhile (\<lambda>t. t \<noteq> Chr apos) ts" and ?after = "dropWhile (\<lambda>t. t \<noteq> Chr apos) ts"
  have tr: "transparent apos ts" using assms(1) transparent_plain by blast
  note tw = takeWhile_render(1) [OF tr esc_delims(2)] and dw = takeWhile_render(2) [OF tr esc_delims(2)]
  from assms(2) have "?content \<noteq> []" "?after \<noteq> []"
    by (simp_all add: closed_run_def tw dw)
  then obtain r where after: "?after = Chr apos # r"
    using hd_dropWhile [of "\<lambda>t. t \<noteq> Chr apos" ts] by (cases ?after) auto
  have "ts = ?content @ ?after" by simp
  then have "ts = ?content @ Chr apos # r" unfolding after .
  moreover have "tl (dropWhile (\<lambda>x. x \<noteq> apos) (render ts)) = render r"
    by (simp add: dw after)
  ultimately show ?thesis
    using that \<open>?content \<noteq> []\<close> tw by blast
qed

lemma thoughts_span_render:
  "thoughts_span (render content) @ render ts
     = render ([Open (u ''thoughts''), Chr apos] @ content @ [Chr apos, Close] @ ts)"
  by (simp add: thoughts_span_def) (simp add: u_def)

lemma thoughts_tokens:
  "\<forall>b. (\<forall>t \<in> set ts. plain_class t) \<longrightarrow>
     (\<exists>ts'. replace_thoughts b (render ts) = render ts' \<and> token_chars ts' = token_chars ts
            \<and> (\<forall>t \<in> set ts'. plain_class t))"
proof (induction ts rule: length_induct)
  case (1 ts)
  show ?case
  proof (intro allI impI)
    fix b
    assume plain: "\<forall>t \<in> set ts. plain_class t"
    note IH = 1 [rule_format]
    show "\<exists>ts'. replace_thoughts b (render ts) = render ts' \<and> token_chars ts' = token_chars ts
            \<and> (\<forall>t \<in> set ts'. plain_class t)"
    proof (cases ts)
      case Nil
      then show ?thesis by (intro exI [of _ "[]"]) simp
    next
      case (Cons tk rest)
      have plain_rest: "\<forall>t \<in> set rest. plain_class t" using plain Cons by simp
      have plain_tk: "plain_class tk" using plain Cons by simp
      from IH [of rest False] plain_rest Cons
      obtain ts0 where ts0: "replace_thoughts False (render rest) = render ts0"
        "token_chars ts0 = token_chars rest" "\<forall>t \<in> set ts0. plain_class t"
        by auto
      txt \<open>The step that keeps the first token and goes on behind it.\<close>
      have keep: ?thesis if "replace_thoughts b (render ts) = render_token tk @ replace_thoughts False (render rest)"
        using that ts0 Cons plain_tk by (intro exI [of _ "tk # ts0"]) (cases tk; simp)
      txt \<open>The step that wraps a closed run behind the tokens \<open>pre\<close>.\<close>
      have wrap: ?thesis
        if run: "closed_run apos (render run_rest)" and sub: "ts = pre @ Chr apos # run_rest"
          and pre: "\<forall>t \<in> set pre. plain_class t"
          and eq: "replace_thoughts b (render ts)
                = render pre @ thoughts_span (takeWhile (\<lambda>x. x \<noteq> apos) (render run_rest))
                  @ replace_thoughts False (tl (dropWhile (\<lambda>x. x \<noteq> apos) (render run_rest)))"
        for pre run_rest
      proof -
        have pr: "\<forall>t \<in> set run_rest. plain_class t" using plain sub by simp
        from closed_run_tokens [OF pr run] obtain content r where
          c: "run_rest = content @ Chr apos # r" "content \<noteq> []"
          "takeWhile (\<lambda>x. x \<noteq> apos) (render run_rest) = render content"
          "tl (dropWhile (\<lambda>x. x \<noteq> apos) (render run_rest)) = render r"
          by blast
        have "length r < length ts" using sub c(1) by simp
        moreover have "\<forall>t \<in> set r. plain_class t" using pr c(1) by simp
        ultimately obtain ts1 where ts1: "replace_thoughts False (render r) = render ts1"
          "token_chars ts1 = token_chars r" "\<forall>t \<in> set ts1. plain_class t"
          using IH [of r False] by auto
        let ?ts = "pre @ [Open (u ''thoughts''), Chr apos] @ content @ [Chr apos, Close] @ ts1"
        have "replace_thoughts b (render ts) = render ?ts"
          unfolding eq c(3,4) ts1(1) thoughts_span_render by simp
        moreover have "token_chars ?ts = token_chars ts"
          using sub c(1) ts1(2) by simp
        moreover have "\<forall>t \<in> set ?ts. plain_class t"
          using pre pr c(1) ts1(3) by (auto simp: u_def quot_def apos_def star_def)
        ultimately show ?thesis by blast
      qed
      show ?thesis
      proof (cases "tk = Chr apos")
        case True
        show ?thesis
        proof (cases "b \<and> closed_run apos (render rest)")
          case run: True
          have "replace_thoughts b (render ts)
                = render [] @ thoughts_span (takeWhile (\<lambda>x. x \<noteq> apos) (render rest))
                  @ replace_thoughts False (tl (dropWhile (\<lambda>x. x \<noteq> apos) (render rest)))"
            using run True Cons by (simp add: replace_thoughts.simps)
          then show ?thesis
            using run True Cons by (intro wrap [of rest "[]"]) simp_all
        next
          case False
          have "\<not> is_space apos" by (simp add: is_space_def apos_def)
          with False have "replace_thoughts b (render ts) = apos # replace_thoughts False (render rest)"
            using True Cons by (auto simp: replace_thoughts.simps)
          then show ?thesis using True by (intro keep) simp
        qed
      next
        case not_apos: False
        show ?thesis
        proof (cases "\<exists>c. tk = Chr c \<and> is_space c \<and> c \<noteq> 160")
          case True
          then obtain c where c: "tk = Chr c" "is_space c" "c \<noteq> 160" by blast
          then have esc: "esc_char c = [c]" and ca: "c \<noteq> apos"
            by (auto simp: esc_char_def is_space_def apos_def)
          show ?thesis
          proof (cases "\<exists>r. rest = Chr apos # r \<and> closed_run apos (render r)")
            case True
            then obtain r where r: "rest = Chr apos # r" "closed_run apos (render r)" by blast
            have "replace_thoughts b (render ts)
                = render [Chr c] @ thoughts_span (takeWhile (\<lambda>x. x \<noteq> apos) (render r))
                  @ replace_thoughts False (tl (dropWhile (\<lambda>x. x \<noteq> apos) (render r)))"
              using c ca esc r Cons by (simp add: replace_thoughts.simps)
            then show ?thesis
              using r c Cons by (intro wrap [of r "[Chr c]"]) simp_all
          next
            case False
            have "\<not> (render rest \<noteq> [] \<and> hd (render rest) = apos \<and> closed_run apos (tl (render rest)))"
            proof
              assume a: "render rest \<noteq> [] \<and> hd (render rest) = apos \<and> closed_run apos (tl (render rest))"
              then have "rest \<noteq> []" by auto
              with a hd_render_apos [OF plain_rest] obtain r where "rest = Chr apos # r" by blast
              with a False show False by simp
            qed
            then have "replace_thoughts b (render ts) = c # replace_thoughts False (render rest)"
              using c ca esc Cons by (auto simp: replace_thoughts.simps)
            then show ?thesis using c esc by (intro keep) simp
          qed
        next
          case False
          have "apos \<notin> set (render_token tk) \<and> render_token tk \<noteq> [] \<and> \<not> is_space (last (render_token tk))"
          proof (cases tk)
            case (Chr c)
            with not_apos False show ?thesis
              by (auto simp: esc_char_def u_def apos_def is_space_def)
          next
            case (Open cls)
            with plain_tk show ?thesis by (simp add: u_def apos_def is_space_def)
          next
            case Close
            then show ?thesis by (simp add: u_def apos_def is_space_def)
          qed
          then have "replace_thoughts b (render_token tk @ render rest)
                = render_token tk @ replace_thoughts False (render rest)"
            by (intro replace_thoughts_skip) simp_all
          then show ?thesis using Cons by (intro keep) simp
        qed
      qed
    qed
  qed
qed

subsection \<open>Texts without an asterisk\<close>

lemma render_free:
  "transparent d ts \<Longrightarrow> d \<notin> set (token_chars ts) \<Longrightarrow> d \<notin> set (render ts)"
proof (induction ts)
  case Nil
  show ?case by simp
next
  case (Cons t ts)
  then show ?case by (cases t) (auto simp: transparent_Cons)
qed

lemma formattedHtml_tokens:
  assumes "star \<notin> set s"
  shows "\<exists>ts. formattedHtml s = render ts \<and> token_chars ts = s \<and> (\<forall>t \<in> set ts. plain_class t)"
proof -
  from dialogue_tokens [of s] obtain ts1 where
    ts1: "replace_delimited quot dialogue_span (escapeHtml s) = render ts1"
    "token_chars ts1 = s" "\<forall>t \<in> set ts1. plain_class t"
    by blast
  from thoughts_tokens [of ts1] ts1(3) obtain ts2 where
    ts2: "replace_thoughts True (render ts1) = render ts2"
    "token_chars ts2 = token_chars ts1" "\<forall>t \<in> set ts2. plain_class t"
    by blast
  have "star \<notin> set (render ts2)"
    using transparent_plain [OF ts2(3)] assms ts1(2) ts2(2) by (intro render_free) simp_all
  then have "formattedHtml s = render ts2"
    by (simp add: formattedHtml_def ts1(1) ts2(1) replace_delimited_absent)
  with ts1(2) ts2(2,3) show ?thesis by auto
qed

text \<open>
  For a text without an asterisk, a carriage return or the character U+0000, the nodes
  parsed from the markup of the formatter hold the text itself.
\<close>

lemma round_trip_without_asterisk:
  assumes "star \<notin> set s" "13 \<notin> set s" "0 \<notin> set s"
  shows "nodes_text (parse_html (formattedHtml s)) = s"
proof -
  from formattedHtml_tokens [OF assms(1)] obtain ts where
    ts: "formattedHtml s = render ts" "token_chars ts = s" "\<forall>t \<in> set ts. plain_class t"
    by blast
  have "13 \<notin> set (render ts)"
    using transparent_cr [OF ts(3)] assms(2) ts(2) by (intro render_free) simp_all
  with ts(3) have "nodes_text (parse_html (render ts)) = filter (\<lambda>c. c \<noteq> 0) (token_chars ts)"
    by (rule parse_render)
  also have "\<dots> = s"
    using assms(3) ts(2) by (auto simp: filter_id_conv intro!: gr0I)
  finally show ?thesis by (simp add: ts(1))
qed

lemma element_text_restore [simp]:
  "element_text (restoreCursorPosition ed pos) = element_text ed"
  by (cases pos) (simp_all add: restoreCursorPosition_def element_text_def Let_def)

lemma element_text_applyRealtimeFormatting:
  assumes "star \<notin> set (element_text ed)" "13 \<notin> set (element_text ed)"
    "0 \<notin> set (element_text ed)"
  shows "element_text (applyRealtimeFormatting ed) = element_text ed"
  using round_trip_without_asterisk [OF assms]
  by (simp add: applyRealtimeFormatting_def Let_def)
     (simp add: element_text_def set_innerHTML_def replace_children_def nodes_text_def)

lemma element_text_set_textContent [simp]: "element_text (set_textContent s ed) = s"
  by (simp add: set_textContent_def replace_children_def element_text_def)

lemma element_text_setPlainText:
  "star \<notin> set s \<Longrightarrow> 13 \<notin> set s \<Longrightarrow> 0 \<notin> set s \<Longrightarrow> element_text (setPlainText s ed) = s"
  by (simp add: setPlainText_def Let_def element_text_applyRealtimeFormatting)

lemma getPlainText_element_text [simp]: "getPlainText ed = element_text ed"
  by (simp add: getPlainText_def)

text \<open>
  The splice of \<open>handleGenerate\<close>, for a text without an asterisk, a carriage return or
  the character U+0000: after each callback the text of the editor is \<open>textBefore\<close>, the
  accumulated text and \<open>textAfter\<close>, and the caret is collapsed behind the accumulated
  text.
\<close>

lemma splice_without_asterisk:
  assumes "star \<notin> set (textBefore sn @ generatedText @ textAfter sn)"
    and "13 \<notin> set (textBefore sn @ generatedText @ textAfter sn)"
    and "0 \<notin> set (textBefore sn @ generatedText @ textAfter sn)"
  shows "getPlainText (onChunk sn generatedText ed) = textBefore sn @ generatedText @ textAfter sn"
    and "saveCursorPosition (onChunk sn generatedText ed)
           = Some \<lparr>pos_start = length (textBefore sn) + length generatedText,
                   pos_end = length (textBefore sn) + length generatedText\<rparr>"
    and "getPlainText (onComplete sn generatedText ed) = textBefore sn @ generatedText @ textAfter sn"
    and "saveCursorPosition (onComplete sn generatedText ed)
           = Some \<lparr>pos_start = length (textBefore sn) + length generatedText,
                   pos_end = length (textBefore sn) + length generatedText\<rparr>"
proof -
  let ?new = "textBefore sn @ generatedText @ textAfter sn"
  let ?k = "length (textBefore sn) + length generatedText"
  let ?ed1 = "setPlainText ?new ed"
  have t: "element_text ?ed1 = ?new"
    using assms by (rule element_text_setPlainText)
  have same: "onComplete sn generatedText ed = onChunk sn generatedText ed"
    by (simp add: onComplete_def onChunk_def)
  show "getPlainText (onChunk sn generatedText ed) = ?new"
    by (simp add: onChunk_def Let_def setCursorOffset_def t)
  then show "getPlainText (onComplete sn generatedText ed) = ?new"
    by (simp only: same)
  have "saveCursorPosition (restoreCursorPosition ?ed1 (Some \<lparr>pos_start = ?k, pos_end = ?k\<rparr>))
      = Some \<lparr>pos_start = min ?k (length (element_text ?ed1)), pos_end = min ?k (length (element_text ?ed1))\<rparr>"
    using restore_then_save [of "\<lparr>pos_start = ?k, pos_end = ?k\<rparr>" ?ed1] by simp
  then show "saveCursorPosition (onChunk sn generatedText ed) = Some \<lparr>pos_start = ?k, pos_end = ?k\<rparr>"
    by (simp add: onChunk_def Let_def setCursorOffset_def t)
  then show "saveCursorPosition (onComplete sn generatedText ed) = Some \<lparr>pos_start = ?k, pos_end = ?k\<rparr>"
    by (simp only: same)
qed

text \<open>
  A carriage return and the character U+0000 do not come back from the parser: in the
  quoted run \<open>a\<close>, CR, LF, \<open>b\<close>, CR, U+0000, \<open>c\<close> the element then holds \<open>a\<close>, LF, \<open>b\<close>, LF,
  \<open>c\<close>.
\<close>

lemma parser_normalizes_input:
  "getPlainText (applyRealtimeFormatting
      \<lparr>children = [TextNode [34, 97, 13, 10, 98, 13, 0, 99, 34]], selection = None\<rparr>)
     = [34, 97, 10, 98, 10, 99, 34]"
  by (simp add: ed_defs rt_defs str_defs replace_eval dom_eval Let_def)

end
